theory Spec2Isabelle
  imports Main
begin

section \<open>Strings\<close>

text \<open>
  A JavaScript string is modelled as an Isabelle \<open>string\<close>: each \<open>char\<close> is one code unit
  below 256 (Latin-1). Of the characters the engine calls white space (\<open>\s\<close>, \<open>trim\<close>)
  those below 256 are TAB, LF, VT, FF, CR, SPACE and NBSP; of the line terminators, LF and CR.
\<close>

definition isWhiteSpace :: "char \<Rightarrow> bool" where
  "isWhiteSpace c =
     (c \<in> set [CHR 0x09, CHR 0x0A, CHR 0x0B, CHR 0x0C, CHR 0x0D, CHR 0x20, CHR 0xA0])"

definition isLineTerminator :: "char \<Rightarrow> bool" where
  "isLineTerminator c = (c = CHR 0x0A \<or> c = CHR 0x0D)"

text \<open>Upper-casing of the ASCII letters; the parser applies it to ASCII text only.\<close>

definition upcase :: "char \<Rightarrow> char" where
  "upcase c =
     (let n = (of_char c :: nat) in if 97 \<le> n \<and> n \<le> 122 then char_of (n - 32) else c)"

definition toUpperCase :: "string \<Rightarrow> string" where
  "toUpperCase s = map upcase s"

definition trim :: "string \<Rightarrow> string" where
  "trim s = rev (dropWhile isWhiteSpace (rev (dropWhile isWhiteSpace s)))"

definition startsWith :: "string \<Rightarrow> string \<Rightarrow> bool" where
  "startsWith s p = (take (length p) s = p)"

text \<open>\<open>s.slice(1, -1)\<close>: from index 1 up to, not including, the last code unit.\<close>

definition slice_1_m1 :: "string \<Rightarrow> string" where
  "slice_1_m1 s = drop 1 (take (length s - 1) s)"

text \<open>\<open>xs.join(sep)\<close>.\<close>

fun join :: "string \<Rightarrow> string list \<Rightarrow> string" where
  "join sep [] = []"
| "join sep [x] = x"
| "join sep (x # y # ys) = x @ sep @ join sep (y # ys)"

text \<open>A number inside a template literal: its decimal digits.\<close>

definition digit :: "nat \<Rightarrow> char" where
  "digit d = char_of (48 + d)"

fun decimal :: "nat \<Rightarrow> string" where
  "decimal n = (if n < 10 then [digit n] else decimal (n div 10) @ [digit (n mod 10)])"

declare decimal.simps [simp del]

text \<open>\<open>text.split(/\r?\n/)\<close>: the lines of a text, cut at LF or CR LF.\<close>

fun split_lines_from :: "string \<Rightarrow> string \<Rightarrow> string list" where
  "split_lines_from cur [] = [cur]"
| "split_lines_from cur [c] = (if c = CHR 0x0A then [cur, []] else [cur @ [c]])"
| "split_lines_from cur (c # x # cs) =
     (if c = CHR 0x0A then cur # split_lines_from [] (x # cs)
      else if c = CHR 0x0D \<and> x = CHR 0x0A then cur # split_lines_from [] cs
      else split_lines_from (cur @ [c]) (x # cs))"

definition split_lines :: "string \<Rightarrow> string list" where
  "split_lines s = split_lines_from [] s"

text \<open>
  \<open>line.split(/\s+/)\<close>: the pieces between maximal runs of white space; a run at either
  end of the string leaves an empty piece there.
\<close>

function split_ws_from :: "string \<Rightarrow> string \<Rightarrow> string list" where
  "split_ws_from cur [] = [cur]"
| "split_ws_from cur (c # cs) =
     (if isWhiteSpace c then cur # split_ws_from [] (dropWhile isWhiteSpace cs)
      else split_ws_from (cur @ [c]) cs)"
  by pat_completeness auto
termination
  by (relation "measure (\<lambda>(cur, s). length s)")
     (auto simp: length_dropWhile_le le_imp_less_Suc)

definition split_ws :: "string \<Rightarrow> string list" where
  "split_ws s = split_ws_from [] s"

section \<open>Regular expressions\<close>

text \<open>
  The three patterns of the parser and its two inline tests are written as values of a
  regular-expression datatype and run by a backtracking matcher that returns the ways a
  pattern can match in the engine's order of preference (greedy quantifiers, alternatives
  left to right); \<open>exec\<close> takes the first.
\<close>

datatype citem = Ch char | Rng char char | WhiteSpace

fun citem_has :: "citem \<Rightarrow> char \<Rightarrow> bool" where
  "citem_has (Ch a) c = (c = a)"
| "citem_has (Rng a b) c = ((of_char a :: nat) \<le> of_char c \<and> (of_char c :: nat) \<le> of_char b)"
| "citem_has WhiteSpace c = isWhiteSpace c"

datatype regex =
    Eps
  | Bol
  | Eol
  | Lit char
  | LitI char
  | Dot
  | Class "citem list"
  | NClass "citem list"
  | Seq regex regex
  | Alt regex regex
  | Opt regex
  | Star regex
  | Grp string regex

text \<open>
  A matcher state: the index reached, the rest of the input from there, and the capture
  groups set so far (the latest first).
\<close>

type_synonym captures = "(string \<times> string) list"
type_synonym mstate = "nat \<times> string \<times> captures"

fun step_char :: "(char \<Rightarrow> bool) \<Rightarrow> mstate \<Rightarrow> mstate list" where
  "step_char P (i, [], cs) = []"
| "step_char P (i, x # xs, cs) = (if P x then [(Suc i, xs, cs)] else [])"

function rmatch :: "regex \<Rightarrow> mstate \<Rightarrow> mstate list" where
  "rmatch Eps st = [st]"
| "rmatch Bol st = (if fst st = 0 then [st] else [])"
| "rmatch Eol st = (if fst (snd st) = [] then [st] else [])"
| "rmatch (Lit c) st = step_char (\<lambda>x. x = c) st"
| "rmatch (LitI c) st = step_char (\<lambda>x. upcase x = upcase c) st"
| "rmatch Dot st = step_char (\<lambda>x. \<not> isLineTerminator x) st"
| "rmatch (Class items) st = step_char (\<lambda>x. list_ex (\<lambda>it. citem_has it x) items) st"
| "rmatch (NClass items) st = step_char (\<lambda>x. \<not> list_ex (\<lambda>it. citem_has it x) items) st"
| "rmatch (Seq a b) st = concat (map (rmatch b) (rmatch a st))"
| "rmatch (Alt a b) st = rmatch a st @ rmatch b st"
| "rmatch (Opt a) st = rmatch a st @ [st]"
| "rmatch (Star a) st =
     concat (map (\<lambda>st'. if length (fst (snd st')) < length (fst (snd st))
                          then rmatch (Star a) st' else [])
                 (rmatch a st)) @ [st]"
| "rmatch (Grp name a) st =
     map (\<lambda>st'. (fst st', fst (snd st'),
                  (name, take (fst st' - fst st) (fst (snd st))) # snd (snd st')))
         (rmatch a st)"
  by pat_completeness auto
termination
  by (relation "measures [\<lambda>(r, st). size r, \<lambda>(r, st). length (fst (snd st))]") auto

definition Plus :: "regex \<Rightarrow> regex" where
  "Plus a = Seq a (Star a)"

fun seqs :: "regex list \<Rightarrow> regex" where
  "seqs [] = Eps"
| "seqs [a] = a"
| "seqs (a # b # bs) = Seq a (seqs (b # bs))"

fun alts :: "regex list \<Rightarrow> regex" where
  "alts [] = Eps"
| "alts [a] = a"
| "alts (a # b # bs) = Alt a (alts (b # bs))"

definition lits :: "string \<Rightarrow> regex" where
  "lits s = seqs (map Lit s)"

definition litsI :: "string \<Rightarrow> regex" where
  "litsI s = seqs (map LitI s)"

text \<open>
  \<open>pattern.exec(s)\<close> without the \<open>g\<close> flag: the first start index at which the pattern
  matches, and there the preferred match; the result is its capture groups.
\<close>

fun exec_at :: "regex \<Rightarrow> nat \<Rightarrow> string \<Rightarrow> captures option" where
  "exec_at r i s =
     (case rmatch r (i, s, []) of
        st # _ \<Rightarrow> Some (snd (snd st))
      | [] \<Rightarrow> (case s of [] \<Rightarrow> None | _ # s' \<Rightarrow> exec_at r (Suc i) s'))"

declare exec_at.simps [simp del]

definition exec :: "regex \<Rightarrow> string \<Rightarrow> captures option" where
  "exec r s = exec_at r 0 s"

definition test :: "regex \<Rightarrow> string \<Rightarrow> bool" where
  "test r s = (exec r s \<noteq> None)"

text \<open>A capture group of a match: \<open>None\<close> is \<open>undefined\<close>, the group took no part.\<close>

definition group_of :: "captures \<Rightarrow> string \<Rightarrow> string option" where
  "group_of m name = map_of m name"

text \<open>Truthiness of a string that may be \<open>undefined\<close> or \<open>null\<close>, and \<open>x || d\<close>.\<close>

fun truthy :: "string option \<Rightarrow> bool" where
  "truthy None = False"
| "truthy (Some s) = (s \<noteq> [])"

fun or_else :: "string option \<Rightarrow> string \<Rightarrow> string" where
  "or_else None d = d"
| "or_else (Some s) d = (if s = [] then d else s)"

definition idchar :: regex where
  "idchar = Class [Rng CHR ''A'' CHR ''Z'', Rng CHR ''a'' CHR ''z'', Rng CHR ''0'' CHR ''9'',
                   Ch CHR ''_'', Ch CHR ''-'']"

definition space :: regex where
  "space = Class [WhiteSpace]"

text \<open>\<^verbatim>\<open>/^(graph|flowchart)\s+(TB|TD|BT|RL|LR)?/i\<close>\<close>

definition ORIENTATION_PATTERN :: regex where
  "ORIENTATION_PATTERN =
     seqs [Bol, Grp ''1'' (alts [litsI ''graph'', litsI ''flowchart'']), Plus space,
           Opt (Grp ''2'' (alts [litsI ''TB'', litsI ''TD'', litsI ''BT'', litsI ''RL'',
                                 litsI ''LR'']))]"

text \<open>
  \<^verbatim>\<open>/^(?<lhs>[A-Za-z0-9_\-]+)\s*(?<edge>-->|--|==>|==|-.->|===>)\s*(?<label>\|[^|]+\|)?\s*(?<rhs>[A-Za-z0-9_\-]+)(?<decor>.*)$/\<close>
\<close>

definition EDGE_PATTERN :: regex where
  "EDGE_PATTERN =
     seqs [Bol, Grp ''lhs'' (Plus idchar), Star space,
           Grp ''edge'' (alts [lits ''-->'', lits ''--'', lits ''==>'', lits ''=='',
                               seqs [Lit CHR ''-'', Dot, Lit CHR ''-'', Lit CHR ''>''],
                               lits ''===>'']),
           Star space,
           Opt (Grp ''label'' (seqs [Lit CHR ''|'', Plus (NClass [Ch CHR ''|'']), Lit CHR ''|''])),
           Star space, Grp ''rhs'' (Plus idchar), Grp ''decor'' (Star Dot), Eol]"

text \<open>\<^verbatim>\<open>/^(?<id>[A-Za-z0-9_\-]+)(?<shape>\[[^\]]*\]|\([^)]*\)|\{[^}]*\}|>[^<]*<)?$/\<close>\<close>

definition NODE_PATTERN :: regex where
  "NODE_PATTERN =
     seqs [Bol, Grp ''id'' (Plus idchar),
           Opt (Grp ''shape'' (alts
             [seqs [Lit CHR ''['', Star (NClass [Ch CHR '']'']), Lit CHR '']''],
              seqs [Lit CHR ''('', Star (NClass [Ch CHR '')'']), Lit CHR '')''],
              seqs [Lit CHR ''{'', Star (NClass [Ch CHR ''}'']), Lit CHR ''}''],
              seqs [Lit CHR ''>'', Star (NClass [Ch CHR ''<'']), Lit CHR ''<'']])),
           Eol]"

text \<open>\<^verbatim>\<open>/^subgraph\s+/i\<close> and \<^verbatim>\<open>/^end$/i\<close>\<close>

definition SUBGRAPH_PATTERN :: regex where
  "SUBGRAPH_PATTERN = seqs [Bol, litsI ''subgraph'', Plus space]"

definition END_PATTERN :: regex where
  "END_PATTERN = seqs [Bol, litsI ''end'', Eol]"

section \<open>The parser (\<open>parser.js\<close>)\<close>

subsection \<open>Data\<close>

text \<open>
  The argument of \<open>parse\<close> is any JavaScript value; only its \<open>typeof\<close> matters unless it
  is a string.
\<close>

datatype js_value =
    JUndefined
  | JNull
  | JBoolean bool
  | JNumber int
  | JObject
  | JString string

text \<open>\<open>class FlowMDError extends Error\<close>: the message, the name and the line (or \<open>null\<close>).\<close>

record FlowMDError =
  message :: string
  name :: string
  err_line :: "nat option"

definition new_FlowMDError :: "string \<Rightarrow> nat option \<Rightarrow> FlowMDError" where
  "new_FlowMDError msg ln =
     \<lparr>message = (case ln of
                   None \<Rightarrow> msg
                 | Some l \<Rightarrow> if l = 0 then msg else msg @ '' (line '' @ decimal l @ '')''),
      name = ''FlowMDError'',
      err_line = ln\<rparr>"

record NodeRecord =
  n_id :: string
  n_label :: string
  n_shape :: string
  n_line :: nat
  n_group :: "string option"

record EdgeRecord =
  e_id :: string
  e_source :: string
  e_target :: string
  e_label :: string
  e_line :: nat

text \<open>
  A warning: the parser's carry a line, the graph model's carry the nodes of a cycle.
\<close>

record Warning =
  w_message :: string
  w_line :: "nat option"
  w_nodes :: "string list option"

record LogEntry =
  l_type :: string
  l_value :: string
  l_line :: nat

text \<open>
  The parsing context. \<open>nodes\<close> is a \<open>Map\<close> from id to record and \<open>groups\<close> a \<open>Map\<close> from
  name to a \<open>Set\<close> of ids: both iterate in insertion order, so they are lists in that
  order (the key of a node is its \<open>n_id\<close>). The field \<open>errors\<close> of the source is never
  read or written and is left out.
\<close>

record Ctx =
  orientation :: string
  nodes :: "NodeRecord list"
  edges :: "EdgeRecord list"
  groups :: "(string \<times> string list) list"
  logs :: "LogEntry list"
  warnings :: "Warning list"
  currentGroup :: "string option"
  line :: nat
  orientationParsed :: bool

text \<open>
  \<open>meta.groups\<close> is a plain object whose values are arrays of ids. \<open>own_props\<close> are its
  own properties in the order the engine enumerates them: the keys that are array indices
  first, in ascending numeric order, then the other keys in the order of their creation.
  \<open>prototype\<close> is \<open>None\<close> while the object has the prototype it was created with, and the
  array that has been assigned to \<open>__proto__\<close> afterwards.
\<close>

record GroupsObject =
  own_props :: "(string \<times> string list) list"
  prototype :: "string list option"

record Meta =
  m_orientation :: string
  m_preferredMaxNodes :: nat
  m_maxNodes :: nat
  m_warnings :: "Warning list"
  m_logs :: "LogEntry list"
  m_groups :: GroupsObject
  degrade :: bool
  overflow :: bool

record GraphDocument =
  d_nodes :: "NodeRecord list"
  d_edges :: "EdgeRecord list"
  d_meta :: Meta

record Options =
  opt_maxNodes :: "nat option"
  opt_preferredMaxNodes :: "nat option"

record FlowMDParser =
  maxNodes :: nat
  preferredMaxNodes :: nat

definition new_FlowMDParser :: "Options \<Rightarrow> FlowMDParser" where
  "new_FlowMDParser options =
     \<lparr>maxNodes = (case opt_maxNodes options of None \<Rightarrow> 1000 | Some n \<Rightarrow> n),
      preferredMaxNodes = (case opt_preferredMaxNodes options of None \<Rightarrow> 300 | Some n \<Rightarrow> n)\<rparr>"

subsection \<open>Sets and maps in insertion order\<close>

text \<open>\<open>set.add(x)\<close>: a member keeps its place, a new one goes last.\<close>

definition set_add :: "'a \<Rightarrow> 'a list \<Rightarrow> 'a list" where
  "set_add x xs = (if x \<in> set xs then xs else xs @ [x])"

text \<open>\<open>map.has(k)\<close>, \<open>map.get(k)\<close> and \<open>map.set(k, v)\<close> on a list of entries.\<close>

definition map_has :: "('k \<times> 'v) list \<Rightarrow> 'k \<Rightarrow> bool" where
  "map_has m k = (k \<in> set (map fst m))"

definition map_get :: "('k \<times> 'v) list \<Rightarrow> 'k \<Rightarrow> 'v option" where
  "map_get m k = map_of m k"

definition map_set :: "'k \<Rightarrow> 'v \<Rightarrow> ('k \<times> 'v) list \<Rightarrow> ('k \<times> 'v) list" where
  "map_set k v m =
     (if map_has m k then map (\<lambda>(k', v'). if k' = k then (k', v) else (k', v')) m
      else m @ [(k, v)])"

text \<open>The node map: lookup by id, and replacing the record stored under an id.\<close>

definition nodes_get :: "NodeRecord list \<Rightarrow> string \<Rightarrow> NodeRecord option" where
  "nodes_get ns i = find (\<lambda>n. n_id n = i) ns"

definition nodes_put :: "NodeRecord \<Rightarrow> NodeRecord list \<Rightarrow> NodeRecord list" where
  "nodes_put node ns = map (\<lambda>n. if n_id n = n_id node then node else n) ns"

subsection \<open>The private methods\<close>

definition makeWarning :: "string \<Rightarrow> Ctx \<Rightarrow> Warning" where
  "makeWarning msg ctx = \<lparr>w_message = msg, w_line = Some (line ctx), w_nodes = None\<rparr>"

definition parseHeader :: "string \<Rightarrow> Ctx \<Rightarrow> FlowMDError + Ctx" where
  "parseHeader l ctx =
     (case exec ORIENTATION_PATTERN l of
        None \<Rightarrow>
          Inl (new_FlowMDError ''FlowMD must start with graph/flowchart declaration''
                 (Some (line ctx)))
      | Some m \<Rightarrow>
          (let dir = toUpperCase (or_else (group_of m ''2'') ''TB'')
           in Inr (ctx\<lparr>orientationParsed := True,
                       orientation := dir,
                       logs := logs ctx @
                         [\<lparr>l_type = ''orientation'', l_value = dir, l_line = line ctx\<rparr>]\<rparr>)))"

text \<open>
  \<open>parseSubgraph\<close> returns the group name (or \<open>null\<close>) and the context it has changed.
\<close>

definition parseSubgraph :: "string \<Rightarrow> Ctx \<Rightarrow> string option \<times> Ctx" where
  "parseSubgraph l ctx =
     (let parts = take 2 (split_ws l);
          nameRaw = (case parts of [_, x] \<Rightarrow> Some x | _ \<Rightarrow> None);
          gname = map_option trim nameRaw
      in if \<not> truthy gname
         then (None, ctx\<lparr>warnings := warnings ctx @ [makeWarning ''Empty subgraph name'' ctx]\<rparr>)
         else (gname,
               if map_has (groups ctx) (or_else gname [])
               then ctx
               else ctx\<lparr>groups := map_set (or_else gname []) [] (groups ctx)\<rparr>))"

text \<open>The options object \<open>extra\<close> of \<open>ensureNode\<close>.\<close>

record Extra =
  x_line :: "nat option"
  x_shape :: "string option"

text \<open>
  \<open>ensureNode\<close> returns the record now stored under the id, and the context it has
  changed.
\<close>

definition ensureNode :: "string \<Rightarrow> Ctx \<Rightarrow> Extra \<Rightarrow> NodeRecord \<times> Ctx" where
  "ensureNode i ctx extra =
     (case nodes_get (nodes ctx) i of
        None \<Rightarrow>
          (let lbl = (case x_shape extra of
                        None \<Rightarrow> i
                      | Some sh \<Rightarrow> if sh = [] then i else trim (slice_1_m1 sh));
               node = \<lparr>n_id = i,
                       n_label = (if lbl = [] then i else lbl),
                       n_shape = (case x_shape extra of
                                    None \<Rightarrow> ''[]''
                                  | Some sh \<Rightarrow> if sh = [] then ''[]'' else take 1 sh),
                       n_line = (case x_line extra of None \<Rightarrow> line ctx | Some ln \<Rightarrow> ln),
                       n_group = currentGroup ctx\<rparr>
           in (node, ctx\<lparr>nodes := nodes ctx @ [node]\<rparr>))
      | Some node \<Rightarrow>
          (case x_shape extra of
             None \<Rightarrow> (node, ctx)
           | Some sh \<Rightarrow>
               if sh \<noteq> [] \<and> length sh > 2
               then (let inner = trim (slice_1_m1 sh);
                         node' = node\<lparr>n_label := (if inner = [] then n_label node else inner)\<rparr>
                     in (node', ctx\<lparr>nodes := nodes_put node' (nodes ctx)\<rparr>))
               else (node, ctx)))"

text \<open>
  \<open>parseEdge\<close> and \<open>parseNode\<close> return \<open>false\<close> (here \<open>None\<close>) when the line does not
  match, and otherwise \<open>true\<close> with the context changed. The groups \<open>lhs\<close>, \<open>rhs\<close> and
  \<open>id\<close> take part in every match of their patterns.
\<close>

definition parseEdge :: "string \<Rightarrow> Ctx \<Rightarrow> Ctx option" where
  "parseEdge l ctx =
     (case exec EDGE_PATTERN l of
        None \<Rightarrow> None
      | Some m \<Rightarrow>
          (case (group_of m ''lhs'', group_of m ''rhs'') of
             (Some lhs, Some rhs) \<Rightarrow>
               (let lbl = group_of m ''label'';
                    edgeLabel = (if truthy lbl then trim (slice_1_m1 (or_else lbl [])) else []);
                    (source, ctx1) = ensureNode lhs ctx \<lparr>x_line = Some (line ctx), x_shape = None\<rparr>;
                    (target, ctx2) = ensureNode rhs ctx1 \<lparr>x_line = Some (line ctx1), x_shape = None\<rparr>
                in Some (ctx2\<lparr>edges := edges ctx2 @
                           [\<lparr>e_id = n_id source @ ''->'' @ n_id target,
                             e_source = n_id source,
                             e_target = n_id target,
                             e_label = edgeLabel,
                             e_line = line ctx2\<rparr>]\<rparr>))
           | _ \<Rightarrow> None))"

definition parseNode :: "string \<Rightarrow> Ctx \<Rightarrow> Ctx option" where
  "parseNode l ctx =
     (case exec NODE_PATTERN l of
        None \<Rightarrow> None
      | Some m \<Rightarrow>
          (case group_of m ''id'' of
             Some i \<Rightarrow>
               (let (node, ctx1) = ensureNode i ctx
                                     \<lparr>x_line = Some (line ctx), x_shape = group_of m ''shape''\<rparr>
                in Some (if truthy (currentGroup ctx1)
                         then (case map_get (groups ctx1) (or_else (currentGroup ctx1) []) of
                                 None \<Rightarrow> ctx1
                               | Some members \<Rightarrow>
                                   ctx1\<lparr>groups := map_set (or_else (currentGroup ctx1) [])
                                                     (set_add (n_id node) members) (groups ctx1)\<rparr>)
                         else ctx1))
           | None \<Rightarrow> None))"

subsection \<open>\<open>parse\<close>\<close>

text \<open>
  The body of the loop over the lines, for a line that is neither blank nor a comment.
  The header error is the only \<open>throw\<close> inside the loop.
\<close>

definition parse_statement :: "string \<Rightarrow> Ctx \<Rightarrow> FlowMDError + Ctx" where
  "parse_statement l ctx =
     (if \<not> orientationParsed ctx then parseHeader l ctx
      else if test SUBGRAPH_PATTERN l
        then (let (g, ctx1) = parseSubgraph l ctx in Inr (ctx1\<lparr>currentGroup := g\<rparr>))
      else if test END_PATTERN l then Inr (ctx\<lparr>currentGroup := None\<rparr>)
      else (case parseEdge l ctx of
              Some ctx1 \<Rightarrow> Inr ctx1
            | None \<Rightarrow>
                (case parseNode l ctx of
                   Some ctx1 \<Rightarrow> Inr ctx1
                 | None \<Rightarrow>
                     Inr (ctx\<lparr>warnings := warnings ctx @
                                 [makeWarning ''Unrecognised statement'' ctx]\<rparr>))))"

fun parse_lines :: "Ctx \<Rightarrow> nat \<Rightarrow> string list \<Rightarrow> FlowMDError + Ctx" where
  "parse_lines ctx index [] = Inr ctx"
| "parse_lines ctx index (rawLine # rest) =
     (let ctx1 = ctx\<lparr>line := index + 1\<rparr>;
          l = trim rawLine
      in if l = [] \<or> startsWith l ''%%'' then parse_lines ctx1 (index + 1) rest
         else (case parse_statement l ctx1 of
                 Inl e \<Rightarrow> Inl e
               | Inr ctx2 \<Rightarrow> parse_lines ctx2 (index + 1) rest))"

definition initial_ctx :: Ctx where
  "initial_ctx =
     \<lparr>orientation = ''TB'', nodes = [], edges = [], groups = [], logs = [], warnings = [],
      currentGroup = None, line = 0, orientationParsed = False\<rparr>"

text \<open>
  The keys of a plain object that are array indices: the decimal digits, without a
  leading zero, of a number below \<open>2^32 - 1\<close>.
\<close>

definition is_digit :: "char \<Rightarrow> bool" where
  "is_digit c = (48 \<le> (of_char c :: nat) \<and> (of_char c :: nat) \<le> 57)"

definition index_value :: "string \<Rightarrow> int" where
  "index_value s = foldl (\<lambda>n c. 10 * n + (of_char c - 48)) 0 s"

definition is_array_index :: "string \<Rightarrow> bool" where
  "is_array_index s =
     (s \<noteq> [] \<and> list_all is_digit s \<and> (length s = 1 \<or> take 1 s \<noteq> ''0'') \<and>
      index_value s < 4294967295)"

text \<open>
  A new array-index key takes its place among the array-index keys, which come first and
  ascend.
\<close>

fun insert_index ::
  "string \<Rightarrow> string list \<Rightarrow> (string \<times> string list) list \<Rightarrow> (string \<times> string list) list"
where
  "insert_index k v [] = [(k, v)]"
| "insert_index k v ((k', v') # rest) =
     (if is_array_index k' \<and> index_value k' < index_value k
      then (k', v') # insert_index k v rest
      else (k, v) # (k', v') # rest)"

text \<open>
  \<open>groups[name] = value\<close> on the plain object, \<open>value\<close> an array. The key \<open>__proto__\<close>
  is the accessor inherited from \<open>Object.prototype\<close>: assigning to it sets the prototype of
  the object and creates no own property. Every other key becomes, or already is, an own
  property.
\<close>

definition obj_assign :: "string \<Rightarrow> string list \<Rightarrow> GroupsObject \<Rightarrow> GroupsObject" where
  "obj_assign k v obj =
     (if k = ''__proto__'' then obj\<lparr>prototype := Some v\<rparr>
      else if map_has (own_props obj) k then obj\<lparr>own_props := map_set k v (own_props obj)\<rparr>
      else if is_array_index k then obj\<lparr>own_props := insert_index k v (own_props obj)\<rparr>
      else obj\<lparr>own_props := own_props obj @ [(k, v)]\<rparr>)"


text \<open>
  After the loop: the groups are copied from the \<open>Map\<close> into a plain object, one
  assignment for each entry in the order of the \<open>Map\<close>; the document and its \<open>meta\<close> are
  built, and the hard limit is checked on the \<open>meta\<close> just built.
\<close>

definition make_groups :: "(string \<times> string list) list \<Rightarrow> GroupsObject" where
  "make_groups entries =
     fold (\<lambda>(name, nodesOfGroup) obj. obj_assign name nodesOfGroup obj) entries
       \<lparr>own_props = [], prototype = None\<rparr>"

definition make_meta :: "FlowMDParser \<Rightarrow> Ctx \<Rightarrow> Meta" where
  "make_meta this ctx =
     \<lparr>m_orientation = orientation ctx,
      m_preferredMaxNodes = preferredMaxNodes this,
      m_maxNodes = maxNodes this,
      m_warnings = warnings ctx,
      m_logs = logs ctx,
      m_groups = make_groups (groups ctx),
      degrade = (length (nodes ctx) > preferredMaxNodes this),
      overflow = (length (nodes ctx) > maxNodes this)\<rparr>"

definition finish :: "FlowMDParser \<Rightarrow> Ctx \<Rightarrow> FlowMDError + GraphDocument" where
  "finish this ctx =
     (let nodeArray = nodes ctx;
          meta = make_meta this ctx
      in if overflow meta
         then Inl (new_FlowMDError
                     (''Node count '' @ decimal (length nodeArray) @ '' exceeds hard limit '' @
                      decimal (maxNodes this)) None)
         else Inr \<lparr>d_nodes = nodeArray, d_edges = edges ctx, d_meta = meta\<rparr>)"

definition parse :: "FlowMDParser \<Rightarrow> js_value \<Rightarrow> FlowMDError + GraphDocument" where
  "parse this text =
     (case text of
        JString s \<Rightarrow>
          (case parse_lines initial_ctx 0 (split_lines s) of
             Inl e \<Rightarrow> Inl e
           | Inr ctx \<Rightarrow> finish this ctx)
      | _ \<Rightarrow> Inl (new_FlowMDError ''FlowMD source must be a string'' None))"

section \<open>The graph model (\<open>graph-model.js\<close>)\<close>

text \<open>
  The adjacency is a \<open>Map\<close> from id to a \<open>Set\<close> of successor ids, both in insertion order.
\<close>

type_synonym adjacency = "(string \<times> string list) list"

record GraphModel =
  g_nodes :: "NodeRecord list"
  g_edges :: "EdgeRecord list"
  g_meta :: Meta
  g_adjacency :: adjacency
  g_cycles :: "string list list"

text \<open>
  One turn of the loop over the edges. After the two \<open>map.set\<close> the source is a key, so
  \<open>map.get(edge.source)\<close> is a set; the other branch of the lookup is never taken.
\<close>

definition add_edge :: "EdgeRecord \<Rightarrow> adjacency \<Rightarrow> adjacency" where
  "add_edge edge m =
     (let m1 = (if \<not> map_has m (e_source edge) then map_set (e_source edge) [] m else m);
          m2 = (if \<not> map_has m1 (e_target edge) then map_set (e_target edge) [] m1 else m1)
      in case map_get m2 (e_source edge) of
           None \<Rightarrow> m2
         | Some succs \<Rightarrow> map_set (e_source edge) (set_add (e_target edge) succs) m2)"

definition buildAdjacency :: "NodeRecord list \<Rightarrow> EdgeRecord list \<Rightarrow> adjacency" where
  "buildAdjacency ns es = fold add_edge es (fold (\<lambda>node m. map_set (n_id node) [] m) ns [])"

text \<open>\<open>path.indexOf(x)\<close>; \<open>None\<close> is \<open>-1\<close>.\<close>

fun indexOf :: "'a list \<Rightarrow> 'a \<Rightarrow> nat option" where
  "indexOf [] x = None"
| "indexOf (y # ys) x = (if y = x then Some 0 else map_option Suc (indexOf ys x))"

text \<open>The five collections the closure \<open>dfs\<close> shares with \<open>detectCycles\<close>.\<close>

record DfsState =
  visited :: "string list"
  stack :: "string list"
  path :: "string list"
  seen :: "string list"
  cycles :: "string list list"

text \<open>
  The recursive closure \<open>dfs\<close> and its loop over the successors. The recursion is as deep
  as the longest path of unvisited nodes; the model takes a bound on that depth as its
  first argument and returns \<open>None\<close> when the bound is used up. The bound
  \<open>depth_bound\<close> that \<open>detectCycles\<close> passes is never used up (\<open>detectCycles_returns\<close>).
\<close>

fun dfs :: "nat \<Rightarrow> adjacency \<Rightarrow> string \<Rightarrow> DfsState \<Rightarrow> DfsState option"
  and dfs_successors :: "nat \<Rightarrow> adjacency \<Rightarrow> string list \<Rightarrow> DfsState \<Rightarrow> DfsState option"
where
  "dfs 0 adj nodeId st = None"
| "dfs (Suc k) adj nodeId st =
     (let st1 = st\<lparr>visited := set_add nodeId (visited st),
                   stack := set_add nodeId (stack st),
                   path := path st @ [nodeId]\<rparr>;
          successors = (case map_get adj nodeId of None \<Rightarrow> [] | Some s \<Rightarrow> s)
      in case dfs_successors k adj successors st1 of
           None \<Rightarrow> None
         | Some st2 \<Rightarrow>
             Some (st2\<lparr>stack := removeAll nodeId (stack st2), path := butlast (path st2)\<rparr>))"
| "dfs_successors k adj [] st = Some st"
| "dfs_successors k adj (successor # rest) st =
     (if successor \<notin> set (visited st)
      then (case dfs k adj successor st of
              None \<Rightarrow> None
            | Some st1 \<Rightarrow> dfs_successors k adj rest st1)
      else if successor \<in> set (stack st)
      then (case indexOf (path st) successor of
              None \<Rightarrow> dfs_successors k adj rest st
            | Some index \<Rightarrow>
                (let cyclePath = drop index (path st) @ [successor];
                     key = join ''->'' cyclePath
                 in if key \<notin> set (seen st)
                    then dfs_successors k adj rest
                           (st\<lparr>seen := set_add key (seen st), cycles := cycles st @ [cyclePath]\<rparr>)
                    else dfs_successors k adj rest st))
      else dfs_successors k adj rest st)"

text \<open>The loop of \<open>detectCycles\<close> over the keys of the adjacency.\<close>

fun dfs_roots :: "nat \<Rightarrow> adjacency \<Rightarrow> string list \<Rightarrow> DfsState \<Rightarrow> DfsState option" where
  "dfs_roots k adj [] st = Some st"
| "dfs_roots k adj (node # rest) st =
     (if node \<notin> set (visited st)
      then (case dfs k adj node st of
              None \<Rightarrow> None
            | Some st1 \<Rightarrow> dfs_roots k adj rest st1)
      else dfs_roots k adj rest st)"

definition depth_bound :: "adjacency \<Rightarrow> nat" where
  "depth_bound adj = Suc (length adj)"

definition detectCycles :: "adjacency \<Rightarrow> string list list option" where
  "detectCycles adj =
     map_option cycles
       (dfs_roots (depth_bound adj) adj (map fst adj)
          \<lparr>visited = [], stack = [], path = [], seen = [], cycles = []\<rparr>)"

definition cycle_message :: "string list \<Rightarrow> string" where
  "cycle_message cycle = ''Cycle detected: '' @ join '' -> '' cycle"

text \<open>The loop of the constructor over the cycles, on \<open>meta.warnings\<close>.\<close>

fun push_cycle_warnings :: "string list list \<Rightarrow> Warning list \<Rightarrow> Warning list" where
  "push_cycle_warnings [] ws = ws"
| "push_cycle_warnings (cycle # rest) ws =
     (if \<not> list_ex (\<lambda>warning. w_message warning = cycle_message cycle) ws
      then push_cycle_warnings rest
             (ws @ [\<lparr>w_message = cycle_message cycle, w_line = None, w_nodes = Some cycle\<rparr>])
      else push_cycle_warnings rest ws)"

text \<open>
  The constructor keeps the document's own arrays and \<open>meta\<close> object and writes into
  \<open>meta.warnings\<close>; the model returns, with the new object, the document as the caller
  sees it afterwards. The document is one the parser returns: \<open>meta\<close> is present and
  \<open>meta.warnings\<close> is an array.
\<close>

definition new_GraphModel :: "GraphDocument \<Rightarrow> (GraphModel \<times> GraphDocument) option" where
  "new_GraphModel graph =
     (let adj = buildAdjacency (d_nodes graph) (d_edges graph)
      in case detectCycles adj of
           None \<Rightarrow> None
         | Some cs \<Rightarrow>
             (let meta = (if cs \<noteq> []
                          then (d_meta graph)\<lparr>m_warnings :=
                                  push_cycle_warnings cs (m_warnings (d_meta graph))\<rparr>
                          else d_meta graph)
              in Some (\<lparr>g_nodes = d_nodes graph, g_edges = d_edges graph, g_meta = meta,
                         g_adjacency = adj, g_cycles = cs\<rparr>,
                       graph\<lparr>d_meta := meta\<rparr>)))"

definition successors :: "GraphModel \<Rightarrow> string \<Rightarrow> string list" where
  "successors this nodeId = (case map_get (g_adjacency this) nodeId of None \<Rightarrow> [] | Some s \<Rightarrow> s)"

definition findNode :: "GraphModel \<Rightarrow> string \<Rightarrow> NodeRecord option" where
  "findNode this nodeId = find (\<lambda>node. n_id node = nodeId) (g_nodes this)"

definition toJSON :: "GraphModel \<Rightarrow> GraphDocument" where
  "toJSON this = \<lparr>d_nodes = g_nodes this, d_edges = g_edges this, d_meta = g_meta this\<rparr>"

section \<open>The highlight engine (\<open>highlight.js\<close>)\<close>

text \<open>
  The result of \<open>downstream\<close>: two sets in insertion order. Its third field, the duration
  read from the clock, is left out.
\<close>

record Highlight =
  h_nodes :: "string list"
  h_edges :: "string list"

text \<open>
  The loop over the successors of the node just visited: every edge key is recorded, and
  a successor not yet visited is pushed on the queue.
\<close>

fun visit_successors ::
  "string \<Rightarrow> string list \<Rightarrow> string list \<Rightarrow> string list \<times> string list \<Rightarrow> string list \<times> string list"
where
  "visit_successors nodeId vis [] (edgeIds, queue) = (edgeIds, queue)"
| "visit_successors nodeId vis (successor # rest) (edgeIds, queue) =
     visit_successors nodeId vis rest
       (set_add (nodeId @ ''->'' @ successor) edgeIds,
        if successor \<notin> set vis then queue @ [successor] else queue)"

text \<open>
  The \<open>while\<close> loop of \<open>downstream\<close> on the queue, the visited set and the edge keys.
  It ends on every graph: a turn either visits a node that was not visited, or shortens
  the queue and visits nothing.
\<close>

definition successor_ids :: "GraphModel \<Rightarrow> string set" where
  "successor_ids this = (\<Union>entry \<in> set (g_adjacency this). set (snd entry))"

lemma finite_successor_ids: "finite (successor_ids this)"
  by (simp add: successor_ids_def)

lemma successors_subset: "set (successors this nodeId) \<subseteq> successor_ids this"
proof (cases "map_of (g_adjacency this) nodeId")
  case None
  then show ?thesis by (simp add: successors_def map_get_def)
next
  case (Some s)
  then have "(nodeId, s) \<in> set (g_adjacency this)" by (rule map_of_SomeD)
  then have "set s \<subseteq> successor_ids this" by (force simp: successor_ids_def)
  then show ?thesis using Some by (simp add: successors_def map_get_def)
qed

lemma visit_successors_queue:
  "snd (visit_successors nodeId vis succs (edgeIds, queue)) =
     queue @ filter (\<lambda>s. s \<notin> set vis) succs"
  by (induction succs arbitrary: edgeIds queue) auto

lemma visit_successors_edges:
  "set (fst (visit_successors nodeId vis succs (edgeIds, queue))) =
     set edgeIds \<union> (\<lambda>s. nodeId @ ''->'' @ s) ` set succs"
  by (induction succs arbitrary: edgeIds queue) (auto simp: set_add_def)

lemma set_set_add: "set (set_add x xs) = insert x (set xs)"
  by (auto simp: set_add_def)

function downstream_loop ::
  "GraphModel \<Rightarrow> string list \<Rightarrow> string list \<Rightarrow> string list \<Rightarrow> Highlight"
where
  "downstream_loop this [] vis edgeIds = \<lparr>h_nodes = vis, h_edges = edgeIds\<rparr>"
| "downstream_loop this (nodeId # queue) vis edgeIds =
     (if nodeId \<in> set vis then downstream_loop this queue vis edgeIds
      else (let vis1 = set_add nodeId vis;
                (edgeIds1, queue1) =
                   visit_successors nodeId vis1 (successors this nodeId) (edgeIds, queue)
            in downstream_loop this queue1 vis1 edgeIds1))"
  by pat_completeness auto
termination
proof (relation "inv_image (less_than <*lex*> less_than)
         (\<lambda>(this, queue, vis, edgeIds).
            (card ((successor_ids this \<union> set queue) - set vis), length queue))",
       goal_cases)
  case 1
  show ?case by (intro wf_inv_image wf_lex_prod wf_less_than)
next
  case (2 this nodeId queue vis edgeIds)
  then have "(successor_ids this \<union> set queue) - set vis =
             (successor_ids this \<union> set (nodeId # queue)) - set vis"
    by auto
  then show ?case by simp
next
  case (3 this nodeId queue vis edgeIds vis1 p edgeIds1 queue1)
  then have q: "queue1 = queue @ filter (\<lambda>s. s \<notin> set vis1) (successors this nodeId)"
    using visit_successors_queue [of nodeId vis1 "successors this nodeId" edgeIds queue]
    by (metis snd_conv)
  have v: "set vis1 = insert nodeId (set vis)"
    using 3 by (simp add: set_set_add)
  have "(successor_ids this \<union> set queue1) - set vis1
          \<subset> (successor_ids this \<union> set (nodeId # queue)) - set vis"
    using q v 3(1) successors_subset [of this nodeId] by auto
  then have "card ((successor_ids this \<union> set queue1) - set vis1)
          < card ((successor_ids this \<union> set (nodeId # queue)) - set vis)"
    by (intro psubset_card_mono) (simp_all add: finite_successor_ids)
  then show ?case by simp
qed

record HighlightEngine =
  model :: GraphModel

definition downstream :: "HighlightEngine \<Rightarrow> string option \<Rightarrow> Highlight" where
  "downstream this startId =
     (case startId of
        None \<Rightarrow> \<lparr>h_nodes = [], h_edges = []\<rparr>
      | Some s \<Rightarrow>
          if s = [] then \<lparr>h_nodes = [], h_edges = []\<rparr>
          else downstream_loop (model this) [s] [] [])"

section \<open>Notions used in the statements and proofs\<close>

text \<open>The parser with no options.\<close>

definition default_parser :: FlowMDParser where
  "default_parser = new_FlowMDParser \<lparr>opt_maxNodes = None, opt_preferredMaxNodes = None\<rparr>"

text \<open>
  \<open>advances ctx ctx'\<close>: from \<open>ctx\<close> to \<open>ctx'\<close> the node ids stay distinct, a stored node
  keeps its group, shape and line, and a group keeps its members.
\<close>

definition advances :: "Ctx \<Rightarrow> Ctx \<Rightarrow> bool" where
  "advances ctx ctx' \<longleftrightarrow>
     (distinct (map n_id (nodes ctx)) \<longrightarrow> distinct (map n_id (nodes ctx'))) \<and>
     (\<forall>j n. nodes_get (nodes ctx) j = Some n \<longrightarrow>
        (\<exists>n'. nodes_get (nodes ctx') j = Some n' \<and> n_group n' = n_group n \<and>
              n_shape n' = n_shape n \<and> n_line n' = n_line n)) \<and>
     (\<forall>g ms. map_get (groups ctx) g = Some ms \<longrightarrow>
        (\<exists>ms'. map_get (groups ctx') g = Some ms' \<and> set ms \<subseteq> set ms'))"




text \<open>The keys of a well-formed adjacency are distinct, and so are the members of each set.\<close>

definition adjacency_ok :: "adjacency \<Rightarrow> bool" where
  "adjacency_ok m = (distinct (map fst m) \<and> list_all (\<lambda>entry. distinct (snd entry)) m)"

text \<open>A document with an edge whose ends are not declared as nodes.\<close>

definition undeclared_ends_document :: GraphDocument where
  "undeclared_ends_document =
     \<lparr>d_nodes = [\<lparr>n_id = ''A'', n_label = ''A'', n_shape = ''[]'', n_line = 2, n_group = None\<rparr>],
      d_edges = [\<lparr>e_id = ''X->Y'', e_source = ''X'', e_target = ''Y'', e_label = [], e_line = 3\<rparr>,
                 \<lparr>e_id = ''X->A'', e_source = ''X'', e_target = ''A'', e_label = [], e_line = 4\<rparr>,
                 \<lparr>e_id = ''X->Y'', e_source = ''X'', e_target = ''Y'', e_label = [], e_line = 5\<rparr>],
      d_meta = \<lparr>m_orientation = ''TB'', m_preferredMaxNodes = 300, m_maxNodes = 1000,
                m_warnings = [], m_logs = [], m_groups = \<lparr>own_props = [], prototype = None\<rparr>, degrade = False,
                overflow = False\<rparr>\<rparr>"

text \<open>
  A document whose warnings already hold the message of one of its two cycles (with a
  line, as the parser's warnings have).
\<close>

definition two_cycles_document :: GraphDocument where
  "two_cycles_document =
     \<lparr>d_nodes = [\<lparr>n_id = ''A'', n_label = ''A'', n_shape = ''[]'', n_line = 2, n_group = None\<rparr>,
                 \<lparr>n_id = ''B'', n_label = ''B'', n_shape = ''[]'', n_line = 2, n_group = None\<rparr>,
                 \<lparr>n_id = ''C'', n_label = ''C'', n_shape = ''[]'', n_line = 4, n_group = None\<rparr>],
      d_edges = [\<lparr>e_id = ''A->B'', e_source = ''A'', e_target = ''B'', e_label = [], e_line = 2\<rparr>,
                 \<lparr>e_id = ''B->A'', e_source = ''B'', e_target = ''A'', e_label = [], e_line = 3\<rparr>,
                 \<lparr>e_id = ''C->C'', e_source = ''C'', e_target = ''C'', e_label = [], e_line = 4\<rparr>],
      d_meta = \<lparr>m_orientation = ''TB'', m_preferredMaxNodes = 300, m_maxNodes = 1000,
                m_warnings = [\<lparr>w_message = ''Cycle detected: C -> C'', w_line = Some 9,
                                w_nodes = None\<rparr>],
                m_logs = [], m_groups = \<lparr>own_props = [], prototype = None\<rparr>, degrade = False, overflow = False\<rparr>\<rparr>"

text \<open>
  The edges of a model as a relation, the nodes reachable from a start node, and the keys
  of the edges that leave a set of nodes.
\<close>

definition edge_rel :: "GraphModel \<Rightarrow> (string \<times> string) set" where
  "edge_rel this = {(a, b). b \<in> set (successors this a)}"

definition reachable :: "GraphModel \<Rightarrow> string \<Rightarrow> string set" where
  "reachable this start = {n. (start, n) \<in> (edge_rel this)\<^sup>*}"

definition edge_keys :: "GraphModel \<Rightarrow> string set \<Rightarrow> string set" where
  "edge_keys this V = (\<Union>v \<in> V. (\<lambda>s. v @ ''->'' @ s) ` set (successors this v))"

text \<open>What holds of the queue, the visited set and the edge keys at every turn.\<close>

definition bfs_inv ::
  "GraphModel \<Rightarrow> string \<Rightarrow> string list \<Rightarrow> string list \<Rightarrow> string list \<Rightarrow> bool" where
  "bfs_inv this start queue vis edgeIds \<longleftrightarrow>
     set vis \<subseteq> reachable this start \<and>
     set queue \<subseteq> reachable this start \<and>
     (\<forall>v \<in> set vis. set (successors this v) \<subseteq> set vis \<union> set queue) \<and>
     start \<in> set vis \<union> set queue \<and>
     set edgeIds = edge_keys this (set vis) \<and>
     distinct vis \<and> distinct edgeIds"

section \<open>Properties of the parser\<close>

subsection \<open>The argument must be a string\<close>

text \<open>
  C10. For every argument that is not a string (\<open>null\<close>, \<open>undefined\<close>, a number, an object),
  \<open>parse\<close> throws a \<open>FlowMDError\<close> with the message "FlowMD source must be a string" and no
  line number; no line of any text is looked at on that path.
\<close>

theorem parse_non_string:
  assumes "\<forall>s. text \<noteq> JString s"
  shows "parse this text =
           Inl \<lparr>message = ''FlowMD source must be a string'', name = ''FlowMDError'',
                err_line = None\<rparr>"
  using assms by (cases "text") (simp_all add: parse_def new_FlowMDError_def)

theorem parse_non_string_witness:
  "(\<forall>s. JNull \<noteq> JString s) \<and>
   parse default_parser JNull =
     Inl \<lparr>message = ''FlowMD source must be a string'', name = ''FlowMDError'',
          err_line = None\<rparr> \<and>
   parse default_parser (JNumber 42) =
     Inl \<lparr>message = ''FlowMD source must be a string'', name = ''FlowMDError'',
          err_line = None\<rparr>"
  using parse_non_string [of JNull default_parser]
        parse_non_string [of "JNumber 42" default_parser]
  by simp

subsection \<open>The header\<close>

lemma parse_lines_skip:
  assumes "trim rawLine = [] \<or> startsWith (trim rawLine) ''%%''"
  shows "parse_lines ctx index (rawLine # rest) =
           parse_lines (ctx\<lparr>line := index + 1\<rparr>) (index + 1) rest"
  using assms by (auto simp: Let_def)

lemma parse_lines_header_mismatch:
  assumes "\<not> orientationParsed ctx"
    and "trim rawLine \<noteq> []" and "\<not> startsWith (trim rawLine) ''%%''"
    and "exec ORIENTATION_PATTERN (trim rawLine) = None"
  shows "parse_lines ctx index (rawLine # rest) =
           Inl (new_FlowMDError ''FlowMD must start with graph/flowchart declaration''
                  (Some (index + 1)))"
  using assms by (simp add: Let_def parse_statement_def parseHeader_def)

text \<open>
  C1. The first line that is neither blank nor a comment must be an orientation
  declaration \<open>graph|flowchart [TB|TD|BT|RL|LR]\<close>, the direction defaulting to \<open>TB\<close> when
  it is left out, as in the bare keyword \<open>graph\<close>. The pattern asks for white space after
  the keyword and the line has been trimmed, so on the bare keyword the parser does not
  reach its default: it throws the header error, with line 1.
\<close>

theorem parse_bare_graph_keyword:
  "parse default_parser (JString ''graph'') =
     Inl \<lparr>message = ''FlowMD must start with graph/flowchart declaration (line 1)'',
          name = ''FlowMDError'', err_line = Some 1\<rparr> \<and>
   parse default_parser (JString ''flowchart'') =
     Inl \<lparr>message = ''FlowMD must start with graph/flowchart declaration (line 1)'',
          name = ''FlowMDError'', err_line = Some 1\<rparr> \<and>
   (case parse default_parser (JString ''graph x'') of
      Inl e \<Rightarrow> False
    | Inr doc \<Rightarrow> m_orientation (d_meta doc) = ''TB'')"
  by code_simp

subsection \<open>The node limits\<close>

text \<open>
  C2. After the full scan, with N the number of nodes: if N exceeds \<open>maxNodes\<close> (1000
  unless the options say otherwise), \<open>parse\<close> throws an error whose message holds N and
  the limit, and returns no document; otherwise it returns the document, and
  \<open>meta.degrade\<close> says whether N exceeds \<open>preferredMaxNodes\<close> (300 unless the options say
  otherwise).
\<close>

theorem parse_node_limits:
  assumes "parse_lines initial_ctx 0 (split_lines s) = Inr ctx"
  shows "(maxNodes this < length (nodes ctx) \<longrightarrow>
            parse this (JString s) =
              Inl \<lparr>message = ''Node count '' @ decimal (length (nodes ctx)) @
                              '' exceeds hard limit '' @ decimal (maxNodes this),
                   name = ''FlowMDError'', err_line = None\<rparr>) \<and>
         (length (nodes ctx) \<le> maxNodes this \<longrightarrow>
            (\<exists>doc. parse this (JString s) = Inr doc \<and> d_nodes doc = nodes ctx \<and>
                   degrade (d_meta doc) = (preferredMaxNodes this < length (nodes ctx)))) \<and>
         maxNodes default_parser = 1000 \<and> preferredMaxNodes default_parser = 300"
  using assms
  by (simp add: parse_def finish_def make_meta_def new_FlowMDError_def Let_def
                default_parser_def new_FlowMDParser_def)

theorem parse_node_limits_witness:
  "parse \<lparr>maxNodes = 1, preferredMaxNodes = 0\<rparr> (JString ''graph TB\<newline>A-->B'') =
     Inl \<lparr>message = ''Node count 2 exceeds hard limit 1'', name = ''FlowMDError'',
          err_line = None\<rparr> \<and>
   (\<exists>doc. parse \<lparr>maxNodes = 2, preferredMaxNodes = 1\<rparr> (JString ''graph TB\<newline>A-->B'') = Inr doc \<and>
          degrade (d_meta doc)) \<and>
   (\<exists>doc. parse default_parser (JString ''graph TB\<newline>A-->B'') = Inr doc \<and>
          \<not> degrade (d_meta doc))"
proof -
  define ctx where "ctx =
    \<lparr>orientation = ''TB'',
     nodes = [\<lparr>n_id = ''A'', n_label = ''A'', n_shape = ''[]'', n_line = 2, n_group = None\<rparr>,
              \<lparr>n_id = ''B'', n_label = ''B'', n_shape = ''[]'', n_line = 2, n_group = None\<rparr>],
     edges = [\<lparr>e_id = ''A->B'', e_source = ''A'', e_target = ''B'', e_label = [], e_line = 2\<rparr>],
     groups = [],
     logs = [\<lparr>l_type = ''orientation'', l_value = ''TB'', l_line = 1\<rparr>],
     warnings = [], currentGroup = None, line = 2, orientationParsed = True\<rparr>"
  have scan: "parse_lines initial_ctx 0 (split_lines ''graph TB\<newline>A-->B'') = Inr ctx"
    unfolding ctx_def by code_simp
  have n: "length (nodes ctx) = 2"
    by (simp add: ctx_def)
  have d: "decimal 2 = ''2''" "decimal (Suc 0) = ''1''"
    by code_simp+
  have p: "maxNodes default_parser = 1000" "preferredMaxNodes default_parser = 300"
    by (simp_all add: default_parser_def new_FlowMDParser_def)
  show ?thesis
    using parse_node_limits [OF scan, of "\<lparr>maxNodes = 1, preferredMaxNodes = 0\<rparr>"]
          parse_node_limits [OF scan, of "\<lparr>maxNodes = 2, preferredMaxNodes = 1\<rparr>"]
          parse_node_limits [OF scan, of default_parser]
    by (auto simp add: n d p)
qed

subsection \<open>Maps and sets in insertion order\<close>

lemma distinct_set_add: "distinct xs \<Longrightarrow> distinct (set_add x xs)"
  by (simp add: set_add_def)

lemma map_fst_map_set:
  "map fst (map_set k v m) = (if map_has m k then map fst m else map fst m @ [k])"
  by (induction m) (auto simp: map_set_def map_has_def)

lemma map_has_map_set: "map_has (map_set k v m) k' = (k' = k \<or> map_has m k')"
  by (auto simp: map_has_def map_fst_map_set)

lemma map_get_map_set:
  "map_get (map_set k v m) k' = (if k' = k then Some v else map_get m k')"
proof (cases "map_has m k")
  case True
  have "map_of (map (\<lambda>(k', v'). if k' = k then (k', v) else (k', v')) m) k' =
          (if k' = k then map_option (\<lambda>_. v) (map_of m k) else map_of m k')"
    by (induction m) auto
  moreover have "map_of m k \<noteq> None"
    using True by (simp add: map_has_def map_of_eq_None_iff)
  then obtain x where "map_of m k = Some x"
    by blast
  ultimately show ?thesis using True
    by (simp add: map_set_def map_get_def)
next
  case False
  then have "map_of m k = None"
    by (simp add: map_has_def map_of_eq_None_iff)
  then show ?thesis using False
    by (auto simp: map_set_def map_get_def map_add_def split: option.splits)
qed

lemma map_get_None: "map_get m k = None \<longleftrightarrow> \<not> map_has m k"
  by (simp add: map_get_def map_has_def map_of_eq_None_iff)

lemma map_get_SomeD: "map_get m k = Some v \<Longrightarrow> (k, v) \<in> set m"
  by (simp add: map_get_def map_of_SomeD)

subsection \<open>The node map\<close>

lemma nodes_get_None: "nodes_get ns i = None \<longleftrightarrow> i \<notin> set (map n_id ns)"
  by (auto simp: nodes_get_def find_None_iff)

lemma nodes_get_SomeD: "nodes_get ns i = Some n \<Longrightarrow> n_id n = i \<and> n \<in> set ns"
  by (auto simp: nodes_get_def find_Some_iff)

lemma nodes_get_append:
  "nodes_get (ns @ ms) j = (case nodes_get ns j of None \<Rightarrow> nodes_get ms j | Some n \<Rightarrow> Some n)"
  by (induction ns) (auto simp: nodes_get_def)

lemma nodes_get_map:
  assumes "\<And>n. n_id (f n) = n_id n"
  shows "nodes_get (map f ns) j = map_option f (nodes_get ns j)"
  using assms by (induction ns) (auto simp: nodes_get_def)

lemma nodes_get_put:
  "nodes_get (nodes_put node ns) j =
     map_option (\<lambda>n. if n_id n = n_id node then node else n) (nodes_get ns j)"
  unfolding nodes_put_def by (rule nodes_get_map) simp

lemma map_n_id_put: "map n_id (nodes_put node ns) = map n_id ns"
  by (induction ns) (auto simp: nodes_put_def)

subsection \<open>\<open>ensureNode\<close>\<close>

lemma ensureNode_frame:
  "snd (ensureNode i ctx extra) = ctx\<lparr>nodes := nodes (snd (ensureNode i ctx extra))\<rparr>"
  by (auto simp: ensureNode_def Let_def split: option.splits)

lemma ensureNode_id: "n_id (fst (ensureNode i ctx extra)) = i"
  by (auto simp: ensureNode_def Let_def split: option.splits dest: nodes_get_SomeD)

lemma ensureNode_ids:
  "map n_id (nodes (snd (ensureNode i ctx extra))) =
     (if i \<in> set (map n_id (nodes ctx)) then map n_id (nodes ctx)
      else map n_id (nodes ctx) @ [i])"
proof (cases "nodes_get (nodes ctx) i")
  case None
  then show ?thesis
    by (simp add: ensureNode_def Let_def) (simp add: nodes_get_None)
next
  case (Some node)
  then have "i \<in> set (map n_id (nodes ctx))"
    using nodes_get_None [of "nodes ctx" i] by simp
  then show ?thesis using Some
    by (auto simp: ensureNode_def Let_def map_n_id_put split: option.splits)
qed

lemma ensureNode_distinct:
  "distinct (map n_id (nodes ctx)) \<Longrightarrow>
   distinct (map n_id (nodes (snd (ensureNode i ctx extra))))"
  by (simp add: ensureNode_ids)

text \<open>A field of a node that \<open>ensureNode\<close> never writes once the node is stored.\<close>

lemma ensureNode_keeps:
  assumes "map_option fld (nodes_get (nodes ctx) j) = Some v"
    and "\<And>n l. fld (n\<lparr>n_label := l\<rparr>) = fld n"
  shows "map_option fld (nodes_get (nodes (snd (ensureNode i ctx extra))) j) = Some v"
proof (cases "nodes_get (nodes ctx) i")
  case None
  then show ?thesis using assms(1)
    by (auto simp: ensureNode_def Let_def nodes_get_append split: option.splits)
next
  case (Some node)
  obtain n where n: "nodes_get (nodes ctx) j = Some n" "fld n = v"
    using assms(1) by auto
  have same: "n_id n = n_id node \<Longrightarrow> n = node"
    using Some n(1) nodes_get_SomeD [of "nodes ctx" i node]
          nodes_get_SomeD [of "nodes ctx" j n] by simp
  show ?thesis using Some n assms(2) same
    by (auto simp: ensureNode_def Let_def nodes_get_put split: option.splits)
qed

subsection \<open>What a statement may change\<close>

lemma advances_refl: "advances ctx ctx"
  by (simp add: advances_def)

lemma advances_trans:
  assumes "advances a b" and "advances b c"
  shows "advances a c"
  unfolding advances_def
proof (intro conjI allI impI)
  assume "distinct (map n_id (nodes a))"
  then show "distinct (map n_id (nodes c))"
    using assms by (simp add: advances_def)
next
  fix j n
  assume "nodes_get (nodes a) j = Some n"
  then obtain n' where "nodes_get (nodes b) j = Some n'" "n_group n' = n_group n"
      "n_shape n' = n_shape n" "n_line n' = n_line n"
    using assms(1) unfolding advances_def by blast
  moreover from this obtain n'' where "nodes_get (nodes c) j = Some n''"
      "n_group n'' = n_group n'" "n_shape n'' = n_shape n'" "n_line n'' = n_line n'"
    using assms(2) unfolding advances_def by blast
  ultimately show "\<exists>n'. nodes_get (nodes c) j = Some n' \<and> n_group n' = n_group n \<and>
                        n_shape n' = n_shape n \<and> n_line n' = n_line n"
    by simp
next
  fix g ms
  assume "map_get (groups a) g = Some ms"
  then obtain ms' where m: "map_get (groups b) g = Some ms'" "set ms \<subseteq> set ms'"
    using assms(1) unfolding advances_def by blast
  then obtain ms'' where "map_get (groups c) g = Some ms''" "set ms' \<subseteq> set ms''"
    using assms(2) unfolding advances_def by blast
  then show "\<exists>ms'. map_get (groups c) g = Some ms' \<and> set ms \<subseteq> set ms'"
    using m by auto
qed

lemma advances_same_nodes_groups:
  "nodes ctx' = nodes ctx \<Longrightarrow> groups ctx' = groups ctx \<Longrightarrow> advances ctx ctx'"
  by (simp add: advances_def)

lemma advances_ensureNode: "advances ctx (snd (ensureNode i ctx extra))"
  unfolding advances_def
proof (intro conjI allI impI)
  assume "distinct (map n_id (nodes ctx))"
  then show "distinct (map n_id (nodes (snd (ensureNode i ctx extra))))"
    by (rule ensureNode_distinct)
next
  fix j n
  assume "nodes_get (nodes ctx) j = Some n"
  then have "map_option (\<lambda>n. (n_group n, n_shape n, n_line n)) (nodes_get (nodes ctx) j) =
               Some (n_group n, n_shape n, n_line n)"
    by simp
  then have "map_option (\<lambda>n. (n_group n, n_shape n, n_line n))
               (nodes_get (nodes (snd (ensureNode i ctx extra))) j) =
               Some (n_group n, n_shape n, n_line n)"
    by (rule ensureNode_keeps) simp
  then show "\<exists>n'. nodes_get (nodes (snd (ensureNode i ctx extra))) j = Some n' \<and>
                  n_group n' = n_group n \<and> n_shape n' = n_shape n \<and> n_line n' = n_line n"
    by auto
next
  fix g ms
  assume "map_get (groups ctx) g = Some ms"
  moreover have "groups (snd (ensureNode i ctx extra)) = groups ctx"
    by (subst ensureNode_frame) simp
  ultimately show "\<exists>ms'. map_get (groups (snd (ensureNode i ctx extra))) g = Some ms' \<and>
                         set ms \<subseteq> set ms'"
    by simp
qed

lemma advances_groups_map_set:
  assumes "map_get (groups ctx) g = None \<and> ms' = [] \<or>
           (\<exists>ms. map_get (groups ctx) g = Some ms \<and> set ms \<subseteq> set ms')"
  shows "advances ctx (ctx\<lparr>groups := map_set g ms' (groups ctx)\<rparr>)"
  using assms by (auto simp: advances_def map_get_map_set)

lemma advances_parseHeader: "parseHeader l ctx = Inr ctx' \<Longrightarrow> advances ctx ctx'"
  by (auto simp: parseHeader_def Let_def advances_def split: option.splits)

lemma advances_parseSubgraph: "advances ctx (snd (parseSubgraph l ctx))"
proof -
  have "snd (parseSubgraph l ctx) = ctx \<or>
        (\<exists>ws. snd (parseSubgraph l ctx) = ctx\<lparr>warnings := ws\<rparr>) \<or>
        (\<exists>g. map_get (groups ctx) g = None \<and>
              snd (parseSubgraph l ctx) = ctx\<lparr>groups := map_set g [] (groups ctx)\<rparr>)"
    by (auto simp: parseSubgraph_def Let_def map_get_None)
  then show ?thesis
    using advances_refl advances_same_nodes_groups advances_groups_map_set
    by (elim disjE exE conjE) (simp_all add: advances_def)
qed

lemma advances_parseEdge:
  assumes "parseEdge l ctx = Some ctx'"
  shows "advances ctx ctx'"
proof -
  obtain lhs rhs x1 x2 es where
    c: "ctx' = (snd (ensureNode rhs (snd (ensureNode lhs ctx x1)) x2))\<lparr>edges := es\<rparr>"
    using assms
    by (auto simp: parseEdge_def Let_def case_prod_beta split: option.splits)
  have "advances ctx (snd (ensureNode rhs (snd (ensureNode lhs ctx x1)) x2))"
    using advances_ensureNode advances_trans by blast
  moreover have "advances (snd (ensureNode rhs (snd (ensureNode lhs ctx x1)) x2)) ctx'"
    unfolding c by (rule advances_same_nodes_groups) simp_all
  ultimately show ?thesis
    by (rule advances_trans)
qed

lemma advances_parseNode:
  assumes "parseNode l ctx = Some ctx'"
  shows "advances ctx ctx'"
proof -
  obtain i x where
    c: "ctx' = snd (ensureNode i ctx x) \<or>
        (\<exists>g ms. map_get (groups (snd (ensureNode i ctx x))) g = Some ms \<and>
                ctx' = (snd (ensureNode i ctx x))
                         \<lparr>groups := map_set g (set_add i ms) (groups (snd (ensureNode i ctx x)))\<rparr>)"
    using assms
    by (auto simp: parseNode_def Let_def case_prod_beta ensureNode_id
             split: option.splits if_splits)
  have "advances (snd (ensureNode i ctx x)) ctx'"
    using c advances_refl
    by (auto simp: set_set_add intro!: advances_groups_map_set)
  then show ?thesis
    using advances_ensureNode advances_trans by blast
qed

lemma advances_parse_statement:
  assumes "parse_statement l ctx = Inr ctx'"
  shows "advances ctx ctx'"
proof -
  have sub: "advances ctx ((snd (parseSubgraph l ctx))\<lparr>currentGroup := g\<rparr>)" for g
    using advances_parseSubgraph [of ctx l]
    by (simp add: advances_def)
  show ?thesis
    using assms advances_parseHeader advances_parseEdge advances_parseNode sub
    by (auto simp: parse_statement_def case_prod_beta Let_def advances_same_nodes_groups
             split: if_splits option.splits)
qed

lemma advances_parse_lines:
  "parse_lines ctx index ls = Inr ctx' \<Longrightarrow> advances ctx ctx'"
proof (induction ls arbitrary: ctx index)
  case Nil
  then show ?case by (simp add: advances_refl)
next
  case (Cons rawLine rest)
  have first: "advances ctx (ctx\<lparr>line := index + 1\<rparr>)"
    by (rule advances_same_nodes_groups) simp_all
  show ?case
  proof (cases "trim rawLine = [] \<or> startsWith (trim rawLine) ''%%''")
    case True
    then have "parse_lines (ctx\<lparr>line := index + 1\<rparr>) (index + 1) rest = Inr ctx'"
      using Cons.prems by (auto simp: Let_def)
    then show ?thesis
      using Cons.IH first advances_trans by blast
  next
    case False
    then obtain ctx2 where
      s: "parse_statement (trim rawLine) (ctx\<lparr>line := index + 1\<rparr>) = Inr ctx2"
         "parse_lines ctx2 (index + 1) rest = Inr ctx'"
      using Cons.prems by (auto simp: Let_def split: sum.splits)
    then show ?thesis
      using Cons.IH first advances_parse_statement advances_trans by blast
  qed
qed

subsection \<open>Node ids are unique\<close>

text \<open>
  C6. Whenever \<open>parse\<close> succeeds, no two records of the returned \<open>nodes\<close> have the same
  id, however often an id occurs in node lines or as an end of an edge.
\<close>

theorem parse_node_ids_distinct:
  assumes "parse this text = Inr doc"
  shows "distinct (map n_id (d_nodes doc))"
proof -
  obtain s ctx where
    scan: "parse_lines initial_ctx 0 (split_lines s) = Inr ctx" and
    fin: "finish this ctx = Inr doc"
    using assms by (auto simp: parse_def split: js_value.splits sum.splits)
  have "advances initial_ctx ctx"
    using scan by (rule advances_parse_lines)
  then have "distinct (map n_id (nodes ctx))"
    by (simp add: advances_def initial_ctx_def)
  moreover have "d_nodes doc = nodes ctx"
    using fin by (auto simp: finish_def Let_def split: if_splits)
  ultimately show ?thesis
    by simp
qed

theorem parse_node_ids_distinct_witness:
  "\<exists>doc. parse default_parser
            (JString ''graph TB\<newline>A\<newline>A[x]\<newline>A-->B\<newline>B-->A\<newline>B'') = Inr doc \<and>
         map n_id (d_nodes doc) = [''A'', ''B''] \<and>
         distinct (map n_id (d_nodes doc))"
proof -
  have "case parse default_parser
               (JString ''graph TB\<newline>A\<newline>A[x]\<newline>A-->B\<newline>B-->A\<newline>B'') of
          Inl e \<Rightarrow> False
        | Inr doc \<Rightarrow> map n_id (d_nodes doc) = [''A'', ''B'']"
    by code_simp
  then obtain doc where
    d: "parse default_parser
          (JString ''graph TB\<newline>A\<newline>A[x]\<newline>A-->B\<newline>B-->A\<newline>B'') = Inr doc"
       "map n_id (d_nodes doc) = [''A'', ''B'']"
    by (auto split: sum.splits)
  show ?thesis
    using parse_node_ids_distinct [OF d(1)] d by (intro exI [of _ doc]) simp
qed

subsection \<open>A node seen again\<close>

text \<open>
  C7, as the code has it. When \<open>ensureNode\<close> meets an id that is already stored, the
  shape of the record is left as it is, and the label is overwritten exactly when the
  sighting carries a decorator whose inner text is not empty after trimming; the new
  label is that trimmed text. No other stored record is changed.
\<close>

theorem ensureNode_seen_again:
  assumes "nodes_get (nodes ctx) i = Some node"
  shows "n_shape (fst (ensureNode i ctx extra)) = n_shape node \<and>
         n_label (fst (ensureNode i ctx extra)) =
           (case x_shape extra of
              None \<Rightarrow> n_label node
            | Some sh \<Rightarrow>
                if trim (slice_1_m1 sh) = [] then n_label node else trim (slice_1_m1 sh)) \<and>
         nodes_get (nodes (snd (ensureNode i ctx extra))) i = Some (fst (ensureNode i ctx extra)) \<and>
         (\<forall>j. j \<noteq> i \<longrightarrow>
            nodes_get (nodes (snd (ensureNode i ctx extra))) j = nodes_get (nodes ctx) j)"
proof -
  have short: "trim (slice_1_m1 sh) = []" if "\<not> 2 < length sh" for sh
  proof -
    have "slice_1_m1 sh = []"
      using that by (simp add: slice_1_m1_def)
    then show ?thesis
      by (simp add: trim_def)
  qed
  have i: "n_id node = i"
    using assms by (simp add: nodes_get_SomeD)
  have other: "nodes_get (nodes_put node' (nodes ctx)) j = nodes_get (nodes ctx) j"
    if "j \<noteq> i" "n_id node' = i" for j node'
  proof (cases "nodes_get (nodes ctx) j")
    case None
    then show ?thesis by (simp add: nodes_get_put)
  next
    case (Some n)
    then have "n_id n = j" by (simp add: nodes_get_SomeD)
    then show ?thesis using Some that by (simp add: nodes_get_put)
  qed
  show ?thesis
    using assms i short other
    by (cases "x_shape extra") (auto simp: ensureNode_def Let_def nodes_get_put)
qed

theorem ensureNode_seen_again_witness:
  "(case parse default_parser (JString ''graph TB\<newline>A[x]\<newline>A(  y )\<newline>A-->A'') of
      Inl e \<Rightarrow> False
    | Inr doc \<Rightarrow> map n_label (d_nodes doc) = [''y''] \<and> map n_shape (d_nodes doc) = [''['']) \<and>
   n_label (fst (ensureNode ''A''
      (initial_ctx\<lparr>nodes := [\<lparr>n_id = ''A'', n_label = ''x'', n_shape = ''['', n_line = 2,
                               n_group = None\<rparr>]\<rparr>)
      \<lparr>x_line = Some 3, x_shape = Some ''(  y )''\<rparr>)) = ''y'' \<and>
   n_shape (fst (ensureNode ''A''
      (initial_ctx\<lparr>nodes := [\<lparr>n_id = ''A'', n_label = ''x'', n_shape = ''['', n_line = 2,
                               n_group = None\<rparr>]\<rparr>)
      \<lparr>x_line = Some 3, x_shape = Some ''(  y )''\<rparr>)) = ''[''"
proof -
  have p: "case parse default_parser (JString ''graph TB\<newline>A[x]\<newline>A(  y )\<newline>A-->A'') of
             Inl e \<Rightarrow> False
           | Inr doc \<Rightarrow> map n_label (d_nodes doc) = [''y''] \<and>
                        map n_shape (d_nodes doc) = [''['']"
    by code_simp
  have g: "nodes_get (nodes (initial_ctx\<lparr>nodes := [\<lparr>n_id = ''A'', n_label = ''x'',
             n_shape = ''['', n_line = 2, n_group = None\<rparr>]\<rparr>)) ''A'' =
           Some \<lparr>n_id = ''A'', n_label = ''x'', n_shape = ''['', n_line = 2, n_group = None\<rparr>"
    by (simp add: nodes_get_def)
  have t: "trim (slice_1_m1 ''(  y )'') = ''y''"
    by code_simp
  show ?thesis
    using p ensureNode_seen_again [OF g, of "\<lparr>x_line = Some 3, x_shape = Some ''(  y )''\<rparr>"]
    by (simp add: t)
qed

text \<open>
  The sentence of the specification fails on a decorator of blanks: the inner text of \<open>[ ]\<close> has
  length 1, its trimmed text is empty, and the label \<open>x\<close> stays.
\<close>

theorem ensureNode_blank_decorator_counterexample:
  "(case parse default_parser (JString ''graph TB\<newline>A[x]\<newline>A[ ]'') of
      Inl e \<Rightarrow> False
    | Inr doc \<Rightarrow> map n_label (d_nodes doc) = [''x'']) \<and>
   0 < length (slice_1_m1 ''[ ]'') \<and>
   trim (slice_1_m1 ''[ ]'') = []"
  by code_simp

subsection \<open>The groups object\<close>





text \<open>
  The order of the own keys and the key \<open>__proto__\<close>, on an example: the array indices
  \<open>2\<close> and \<open>10\<close> come first and ascend, \<open>07\<close> is no array index, and the array assigned
  to \<open>__proto__\<close> becomes the prototype.
\<close>

lemma make_groups_example:
  "make_groups [(''b'', [''x'']), (''10'', []), (''__proto__'', [''p'']), (''07'', []),
                (''2'', [''y''])] =
     \<lparr>own_props = [(''2'', [''y'']), (''10'', []), (''b'', [''x'']), (''07'', [])],
      prototype = Some [''p'']\<rparr>"
  by code_simp

subsection \<open>Every context the loop reaches\<close>









lemma parse_lines_append:
  "parse_lines ctx index (xs @ ys) =
     (case parse_lines ctx index xs of
        Inl e \<Rightarrow> Inl e
      | Inr ctx1 \<Rightarrow> parse_lines ctx1 (index + length xs) ys)"
  by (induction xs arbitrary: ctx index) (auto simp: Let_def split: sum.splits)

subsection \<open>Groups\<close>






text \<open>
  A group named \<open>__proto__\<close>, and groups named by array indices, in the document that
  \<open>parse\<close> returns.
\<close>

lemma parse_groups_object_example:
  "(case parse default_parser
           (JString ''graph TB\<newline>subgraph 10\<newline>A\<newline>subgraph __proto__\<newline>B\<newline>subgraph 2\<newline>C'') of
      Inl e \<Rightarrow> False
    | Inr doc \<Rightarrow>
        m_groups (d_meta doc) =
          \<lparr>own_props = [(''2'', [''C'']), (''10'', [''A''])], prototype = Some [''B'']\<rparr>)"
  by code_simp

section \<open>Properties of the graph model\<close>

subsection \<open>The adjacency\<close>

lemma set_map_set: "set (map_set k v m) \<subseteq> insert (k, v) (set m)"
  by (auto simp: map_set_def split: if_splits)

lemma adjacency_ok_map_set:
  assumes "adjacency_ok m" and "distinct v"
  shows "adjacency_ok (map_set k v m)"
proof -
  have "distinct (map fst (map_set k v m))"
    using assms(1) by (auto simp: adjacency_ok_def map_fst_map_set map_has_def)
  moreover have "distinct (snd entry)" if "entry \<in> set (map_set k v m)" for entry
    using that assms set_map_set [of k v m]
    by (auto simp: adjacency_ok_def list_all_iff)
  ultimately show ?thesis
    by (simp add: adjacency_ok_def list_all_iff)
qed

lemma map_has_add_edge:
  "map_has (add_edge edge m) k \<longleftrightarrow> k = e_source edge \<or> k = e_target edge \<or> map_has m k"
  by (auto simp: add_edge_def Let_def map_has_map_set split: option.splits)

lemma adjacency_ok_add_edge:
  assumes "adjacency_ok m"
  shows "adjacency_ok (add_edge edge m)"
proof -
  define m1 where "m1 = (if \<not> map_has m (e_source edge) then map_set (e_source edge) [] m else m)"
  define m2 where "m2 = (if \<not> map_has m1 (e_target edge) then map_set (e_target edge) [] m1 else m1)"
  have ok2: "adjacency_ok m2"
    using assms by (simp add: m1_def m2_def adjacency_ok_map_set)
  have eq: "add_edge edge m =
              (case map_get m2 (e_source edge) of
                 None \<Rightarrow> m2
               | Some succs \<Rightarrow> map_set (e_source edge) (set_add (e_target edge) succs) m2)"
    unfolding add_edge_def m1_def m2_def Let_def by (rule refl)
  show ?thesis
  proof (cases "map_get m2 (e_source edge)")
    case None
    then show ?thesis
      using ok2 by (simp add: eq)
  next
    case (Some succs)
    then have "distinct succs"
      using ok2 map_get_SomeD [of m2 "e_source edge" succs]
      by (auto simp: adjacency_ok_def list_all_iff)
    then have "adjacency_ok (map_set (e_source edge) (set_add (e_target edge) succs) m2)"
      using ok2 by (simp add: adjacency_ok_map_set distinct_set_add)
    then show ?thesis
      using Some by (simp add: eq)
  qed
qed

lemma fold_add_edge:
  "adjacency_ok m \<Longrightarrow>
   adjacency_ok (fold add_edge es m) \<and>
   (\<forall>k. map_has (fold add_edge es m) k \<longleftrightarrow>
        map_has m k \<or> k \<in> e_source ` set es \<or> k \<in> e_target ` set es)"
proof (induction es arbitrary: m)
  case Nil
  then show ?case by simp
next
  case (Cons edge es)
  have "adjacency_ok (add_edge edge m)"
    using Cons.prems by (rule adjacency_ok_add_edge)
  from Cons.IH [OF this] show ?case
    by (auto simp: map_has_add_edge)
qed

lemma fold_nodes:
  "adjacency_ok m \<Longrightarrow>
   adjacency_ok (fold (\<lambda>node m. map_set (n_id node) [] m) ns m) \<and>
   (\<forall>k. map_has (fold (\<lambda>node m. map_set (n_id node) [] m) ns m) k \<longleftrightarrow>
        map_has m k \<or> k \<in> n_id ` set ns)"
proof (induction ns arbitrary: m)
  case Nil
  then show ?case by simp
next
  case (Cons node ns)
  have "adjacency_ok (map_set (n_id node) [] m)"
    using Cons.prems by (simp add: adjacency_ok_map_set)
  from Cons.IH [OF this] show ?case
    by (auto simp: map_has_map_set)
qed

lemma buildAdjacency_ok: "adjacency_ok (buildAdjacency ns es)"
proof -
  have "adjacency_ok []"
    by (simp add: adjacency_ok_def)
  then show ?thesis
    unfolding buildAdjacency_def using fold_nodes fold_add_edge by blast
qed

lemma buildAdjacency_keys:
  "map_has (buildAdjacency ns es) k \<longleftrightarrow>
     k \<in> n_id ` set ns \<or> k \<in> e_source ` set es \<or> k \<in> e_target ` set es"
proof -
  have e: "adjacency_ok []" "\<not> map_has [] k"
    by (simp_all add: adjacency_ok_def map_has_def)
  show ?thesis
    unfolding buildAdjacency_def
    using fold_nodes [OF e(1), of ns] fold_add_edge [of _ es] e(2)
    by (auto simp: map_has_def)
qed

lemma new_GraphModel_adjacency:
  "new_GraphModel doc = Some (m, doc') \<Longrightarrow>
   g_adjacency m = buildAdjacency (d_nodes doc) (d_edges doc)"
  by (auto simp: new_GraphModel_def Let_def split: option.splits)

text \<open>
  C5. In every graph model the source and the target of every edge are keys of the
  adjacency, also when \<open>nodes\<close> has no record for them (and so is the id of every node);
  the keys are distinct and each value is a set of distinct successor ids; \<open>successors\<close>
  of an id that is not a key is the empty sequence.
\<close>

theorem adjacency_keys_cover_edges:
  assumes "new_GraphModel doc = Some (m, doc')"
  shows "(\<forall>edge \<in> set (d_edges doc).
            map_has (g_adjacency m) (e_source edge) \<and> map_has (g_adjacency m) (e_target edge)) \<and>
         (\<forall>node \<in> set (d_nodes doc). map_has (g_adjacency m) (n_id node)) \<and>
         distinct (map fst (g_adjacency m)) \<and>
         (\<forall>entry \<in> set (g_adjacency m). distinct (snd entry)) \<and>
         (\<forall>i. \<not> map_has (g_adjacency m) i \<longrightarrow> successors m i = [])"
proof -
  have adj: "g_adjacency m = buildAdjacency (d_nodes doc) (d_edges doc)"
    using assms by (rule new_GraphModel_adjacency)
  have "adjacency_ok (g_adjacency m)"
    unfolding adj by (rule buildAdjacency_ok)
  moreover have "successors m i = []" if "\<not> map_has (g_adjacency m) i" for i
    using that map_get_None [of "g_adjacency m" i] by (simp add: successors_def)
  ultimately show ?thesis
    by (auto simp: adj buildAdjacency_keys adjacency_ok_def list_all_iff)
qed

theorem adjacency_keys_cover_edges_witness:
  "\<exists>m doc'. new_GraphModel undeclared_ends_document = Some (m, doc') \<and>
            nodes_get (d_nodes undeclared_ends_document) ''X'' = None \<and>
            map_has (g_adjacency m) ''X'' \<and> map_has (g_adjacency m) ''Y'' \<and>
            successors m ''X'' = [''Y'', ''A''] \<and> successors m ''Z'' = []"
proof -
  have "case new_GraphModel undeclared_ends_document of
          None \<Rightarrow> False
        | Some (m, doc') \<Rightarrow> successors m ''X'' = [''Y'', ''A''] \<and> \<not> map_has (g_adjacency m) ''Z''"
    by code_simp
  then obtain m doc' where
    r: "new_GraphModel undeclared_ends_document = Some (m, doc')"
       "successors m ''X'' = [''Y'', ''A'']" "\<not> map_has (g_adjacency m) ''Z''"
    by (auto split: option.splits)
  have e: "\<lparr>e_id = ''X->Y'', e_source = ''X'', e_target = ''Y'', e_label = [], e_line = 3\<rparr>
             \<in> set (d_edges undeclared_ends_document)"
    by (simp add: undeclared_ends_document_def)
  have n: "nodes_get (d_nodes undeclared_ends_document) ''X'' = None"
    by (simp add: undeclared_ends_document_def nodes_get_def)
  show ?thesis
    using adjacency_keys_cover_edges [OF r(1)] r e n
    by (intro exI [of _ m] exI [of _ doc']) force
qed

subsection \<open>Cycle detection returns\<close>

lemma card_unvisited_mono:
  assumes "set v \<subseteq> set v'"
  shows "card (set (map fst adj) - set v') \<le> card (set (map fst adj) - set v)"
  using assms by (intro card_mono) auto

lemma dfs_successors_returns:
  assumes dfs: "\<And>st n. card (set (map fst adj) - set (visited st)) < k \<Longrightarrow>
                  n \<notin> set (visited st) \<Longrightarrow>
                  \<exists>st'. dfs k adj n st = Some st' \<and> set (visited st) \<subseteq> set (visited st')"
    and "card (set (map fst adj) - set (visited st)) < k \<or> ss = []"
  shows "\<exists>st'. dfs_successors k adj ss st = Some st' \<and> set (visited st) \<subseteq> set (visited st')"
  using assms(2)
proof (induction ss arbitrary: st)
  case Nil
  then show ?case by simp
next
  case (Cons successor rest)
  then have small: "card (set (map fst adj) - set (visited st)) < k"
    by simp
  show ?case
  proof (cases "successor \<in> set (visited st)")
    case False
    then obtain st1 where
      d: "dfs k adj successor st = Some st1" "set (visited st) \<subseteq> set (visited st1)"
      using dfs [OF small] by blast
    then have "card (set (map fst adj) - set (visited st1)) < k"
      using small card_unvisited_mono [of "visited st" "visited st1" adj] by simp
    then obtain st' where
      "dfs_successors k adj rest st1 = Some st'" "set (visited st1) \<subseteq> set (visited st')"
      using Cons.IH by blast
    then show ?thesis
      using False d by auto
  next
    case True
    have keep: "\<exists>st'. dfs_successors k adj rest (st\<lparr>seen := s, cycles := c\<rparr>) = Some st' \<and>
                      set (visited st) \<subseteq> set (visited st')" for s c
      using Cons.IH [of "st\<lparr>seen := s, cycles := c\<rparr>"] small by simp
    have same: "\<exists>st'. dfs_successors k adj rest st = Some st' \<and>
                      set (visited st) \<subseteq> set (visited st')"
      using Cons.IH [of st] small by simp
    show ?thesis
      using True keep same by (auto simp: Let_def split: option.splits)
  qed
qed

lemma dfs_returns:
  "card (set (map fst adj) - set (visited st)) < k \<Longrightarrow> nodeId \<notin> set (visited st) \<Longrightarrow>
   \<exists>st'. dfs k adj nodeId st = Some st' \<and> set (visited st) \<subseteq> set (visited st')"
proof (induction k arbitrary: st nodeId)
  case 0
  then show ?case by simp
next
  case (Suc k)
  define st1 where
    "st1 = st\<lparr>visited := set_add nodeId (visited st), stack := set_add nodeId (stack st),
              path := path st @ [nodeId]\<rparr>"
  define succs where "succs = (case map_get adj nodeId of None \<Rightarrow> [] | Some s \<Rightarrow> s)"
  have v1: "set (visited st1) = insert nodeId (set (visited st))"
    by (simp add: st1_def set_set_add)
  have "card (set (map fst adj) - set (visited st1)) < k \<or> succs = []"
  proof (cases "map_has adj nodeId")
    case True
    then have "set (map fst adj) - set (visited st1) \<subset> set (map fst adj) - set (visited st)"
      using Suc.prems(2) v1 by (auto simp: map_has_def)
    then have "card (set (map fst adj) - set (visited st1))
                 < card (set (map fst adj) - set (visited st))"
      by (intro psubset_card_mono) auto
    then show ?thesis
      using Suc.prems(1) by simp
  next
    case False
    then show ?thesis
      using map_get_None [of adj nodeId] by (simp add: succs_def)
  qed
  then obtain st2 where
    l: "dfs_successors k adj succs st1 = Some st2" "set (visited st1) \<subseteq> set (visited st2)"
    using dfs_successors_returns [of adj k st1 succs] Suc.IH by blast
  have "dfs (Suc k) adj nodeId st =
          Some (st2\<lparr>stack := removeAll nodeId (stack st2), path := butlast (path st2)\<rparr>)"
    using l(1) unfolding st1_def succs_def by (simp add: Let_def)
  then show ?case
    using l(2) v1 by auto
qed

lemma dfs_roots_returns:
  "card (set (map fst adj) - set (visited st)) < k \<Longrightarrow>
   \<exists>st'. dfs_roots k adj ns st = Some st'"
proof (induction ns arbitrary: st)
  case Nil
  then show ?case by simp
next
  case (Cons node rest)
  show ?case
  proof (cases "node \<in> set (visited st)")
    case True
    then show ?thesis using Cons by simp
  next
    case False
    then obtain st1 where
      d: "dfs k adj node st = Some st1" "set (visited st) \<subseteq> set (visited st1)"
      using dfs_returns [OF Cons.prems] by blast
    then have "card (set (map fst adj) - set (visited st1)) < k"
      using Cons.prems card_unvisited_mono [of "visited st" "visited st1" adj] by simp
    then show ?thesis
      using Cons.IH False d by simp
  qed
qed

lemma detectCycles_returns: "\<exists>cs. detectCycles adj = Some cs"
proof -
  have "card (set (map fst adj)) \<le> length adj"
    using card_length [of "map fst adj"] by simp
  then have "card (set (map fst adj) -
               set (visited \<lparr>visited = [], stack = [], path = [], seen = [], cycles = []\<rparr>))
             < depth_bound adj"
    by (simp add: depth_bound_def)
  then show ?thesis
    unfolding detectCycles_def using dfs_roots_returns by fastforce
qed

lemma new_GraphModel_returns: "\<exists>m doc'. new_GraphModel doc = Some (m, doc')"
  using detectCycles_returns [of "buildAdjacency (d_nodes doc) (d_edges doc)"]
  by (auto simp: new_GraphModel_def Let_def)

subsection \<open>What the constructor changes\<close>

lemma push_cycle_warnings_appends:
  "\<exists>added. push_cycle_warnings cs ws = ws @ added \<and>
     (\<forall>w \<in> set added. \<exists>c \<in> set cs.
         w = \<lparr>w_message = cycle_message c, w_line = None, w_nodes = Some c\<rparr> \<and>
         cycle_message c \<notin> w_message ` set ws) \<and>
     distinct (map w_message added) \<and>
     (\<forall>c \<in> set cs. cycle_message c \<in> w_message ` set (ws @ added))"
proof (induction cs arbitrary: ws)
  case Nil
  then show ?case by simp
next
  case (Cons c rest)
  define w where "w = \<lparr>w_message = cycle_message c, w_line = None, w_nodes = Some c\<rparr>"
  show ?case
  proof (cases "cycle_message c \<in> w_message ` set ws")
    case True
    obtain added where a:
      "push_cycle_warnings rest ws = ws @ added"
      "\<forall>w \<in> set added. \<exists>c \<in> set rest.
          w = \<lparr>w_message = cycle_message c, w_line = None, w_nodes = Some c\<rparr> \<and>
          cycle_message c \<notin> w_message ` set ws"
      "distinct (map w_message added)"
      "\<forall>c \<in> set rest. cycle_message c \<in> w_message ` set (ws @ added)"
      using Cons.IH [of ws] by blast
    have "push_cycle_warnings (c # rest) ws = ws @ added"
      using True a(1) by (force simp: list_ex_iff)
    moreover have "\<forall>c' \<in> set (c # rest). cycle_message c' \<in> w_message ` set (ws @ added)"
      using True a(4) by auto
    moreover have "\<forall>w \<in> set added. \<exists>c' \<in> set (c # rest).
          w = \<lparr>w_message = cycle_message c', w_line = None, w_nodes = Some c'\<rparr> \<and>
          cycle_message c' \<notin> w_message ` set ws"
      using a(2) by auto
    ultimately show ?thesis
      using a(3) by blast
  next
    case False
    obtain added where a:
      "push_cycle_warnings rest (ws @ [w]) = (ws @ [w]) @ added"
      "\<forall>w' \<in> set added. \<exists>c \<in> set rest.
          w' = \<lparr>w_message = cycle_message c, w_line = None, w_nodes = Some c\<rparr> \<and>
          cycle_message c \<notin> w_message ` set (ws @ [w])"
      "distinct (map w_message added)"
      "\<forall>c \<in> set rest. cycle_message c \<in> w_message ` set ((ws @ [w]) @ added)"
      using Cons.IH [of "ws @ [w]"] by blast
    have run: "push_cycle_warnings (c # rest) ws = ws @ (w # added)"
      using False a(1) by (force simp: list_ex_iff w_def)
    have from_cycle: "\<forall>w' \<in> set (w # added). \<exists>c' \<in> set (c # rest).
          w' = \<lparr>w_message = cycle_message c', w_line = None, w_nodes = Some c'\<rparr> \<and>
          cycle_message c' \<notin> w_message ` set ws"
    proof
      fix w'
      assume "w' \<in> set (w # added)"
      then consider "w' = w" | "w' \<in> set added" by auto
      then show "\<exists>c' \<in> set (c # rest).
          w' = \<lparr>w_message = cycle_message c', w_line = None, w_nodes = Some c'\<rparr> \<and>
          cycle_message c' \<notin> w_message ` set ws"
      proof cases
        case 1
        then show ?thesis using False by (auto simp: w_def)
      next
        case 2
        then obtain c' where "c' \<in> set rest"
            "w' = \<lparr>w_message = cycle_message c', w_line = None, w_nodes = Some c'\<rparr>"
            "cycle_message c' \<notin> w_message ` set (ws @ [w])"
          using a(2) by blast
        then show ?thesis by auto
      qed
    qed
    have "w_message w \<notin> w_message ` set added"
    proof
      assume "w_message w \<in> w_message ` set added"
      then obtain w' where w': "w' \<in> set added" "w_message w' = w_message w"
        by auto
      then obtain c' where "w' = \<lparr>w_message = cycle_message c', w_line = None, w_nodes = Some c'\<rparr>"
          "cycle_message c' \<notin> w_message ` set (ws @ [w])"
        using a(2) by blast
      then show False
        using w'(2) by auto
    qed
    then have dist: "distinct (map w_message (w # added))"
      using a(3) by simp
    have all: "\<forall>c' \<in> set (c # rest). cycle_message c' \<in> w_message ` set (ws @ (w # added))"
      using a(4) by (auto simp: w_def)
    show ?thesis
      using run from_cycle dist all by blast
  qed
qed

text \<open>
  C9. Constructing a graph model from a document always returns, and changes of the
  document at most \<open>meta.warnings\<close>: the nodes, the edges and every other field of
  \<open>meta\<close> are as before. The warnings are the old ones followed by new ones; each new one
  is the warning of a detected cycle whose message was not among the old ones, no two
  new ones have the same message, and afterwards the message of every detected cycle is
  among the warnings. \<open>toJSON\<close> of the model is the document as it is then.
\<close>

theorem new_GraphModel_changes_warnings_only:
  "\<exists>m doc' added.
     new_GraphModel doc = Some (m, doc') \<and>
     d_nodes doc' = d_nodes doc \<and> d_edges doc' = d_edges doc \<and>
     d_meta doc' = (d_meta doc)\<lparr>m_warnings := m_warnings (d_meta doc) @ added\<rparr> \<and>
     (\<forall>w \<in> set added. \<exists>c \<in> set (g_cycles m).
         w = \<lparr>w_message = cycle_message c, w_line = None, w_nodes = Some c\<rparr> \<and>
         cycle_message c \<notin> w_message ` set (m_warnings (d_meta doc))) \<and>
     distinct (map w_message added) \<and>
     (\<forall>c \<in> set (g_cycles m). cycle_message c \<in> w_message ` set (m_warnings (d_meta doc'))) \<and>
     toJSON m = doc'"
proof -
  obtain cs where cs: "detectCycles (buildAdjacency (d_nodes doc) (d_edges doc)) = Some cs"
    using detectCycles_returns by blast
  obtain added where a:
    "push_cycle_warnings cs (m_warnings (d_meta doc)) = m_warnings (d_meta doc) @ added"
    "\<forall>w \<in> set added. \<exists>c \<in> set cs.
        w = \<lparr>w_message = cycle_message c, w_line = None, w_nodes = Some c\<rparr> \<and>
        cycle_message c \<notin> w_message ` set (m_warnings (d_meta doc))"
    "distinct (map w_message added)"
    "\<forall>c \<in> set cs. cycle_message c \<in> w_message ` set (m_warnings (d_meta doc) @ added)"
    using push_cycle_warnings_appends [of cs "m_warnings (d_meta doc)"] by blast
  define meta where "meta = (d_meta doc)\<lparr>m_warnings := m_warnings (d_meta doc) @ added\<rparr>"
  define m where
    "m = \<lparr>g_nodes = d_nodes doc, g_edges = d_edges doc, g_meta = meta,
          g_adjacency = buildAdjacency (d_nodes doc) (d_edges doc), g_cycles = cs\<rparr>"
  have none: "added = []" if "cs = []"
    using a(1) that by simp
  have "new_GraphModel doc = Some (m, doc\<lparr>d_meta := meta\<rparr>)"
    using cs a(1) none by (simp add: new_GraphModel_def Let_def m_def meta_def)
  moreover have "toJSON m = doc\<lparr>d_meta := meta\<rparr>"
    by (simp add: toJSON_def m_def)
  moreover have "g_cycles m = cs"
    by (simp add: m_def)
  moreover have "m_warnings meta = m_warnings (d_meta doc) @ added"
    by (simp add: meta_def)
  ultimately show ?thesis
    using a(2,3,4) unfolding meta_def
    by (intro exI [of _ m] exI [of _ "doc\<lparr>d_meta := meta\<rparr>"] exI [of _ added])
       (simp add: meta_def)
qed

theorem new_GraphModel_changes_warnings_only_witness:
  "\<exists>m doc'.
     new_GraphModel two_cycles_document = Some (m, doc') \<and>
     g_cycles m = [[''A'', ''B'', ''A''], [''C'', ''C'']] \<and>
     d_nodes doc' = d_nodes two_cycles_document \<and>
     d_edges doc' = d_edges two_cycles_document \<and>
     m_warnings (d_meta doc') =
       [\<lparr>w_message = ''Cycle detected: C -> C'', w_line = Some 9, w_nodes = None\<rparr>,
        \<lparr>w_message = ''Cycle detected: A -> B -> A'', w_line = None,
          w_nodes = Some [''A'', ''B'', ''A'']\<rparr>] \<and>
     toJSON m = doc'"
proof -
  obtain m doc' added where r:
    "new_GraphModel two_cycles_document = Some (m, doc')"
    "d_nodes doc' = d_nodes two_cycles_document"
    "d_edges doc' = d_edges two_cycles_document"
    "toJSON m = doc'"
    using new_GraphModel_changes_warnings_only [of two_cycles_document] by blast
  have "case new_GraphModel two_cycles_document of
          None \<Rightarrow> False
        | Some (m, doc') \<Rightarrow>
            g_cycles m = [[''A'', ''B'', ''A''], [''C'', ''C'']] \<and>
            m_warnings (d_meta doc') =
              [\<lparr>w_message = ''Cycle detected: C -> C'', w_line = Some 9, w_nodes = None\<rparr>,
               \<lparr>w_message = ''Cycle detected: A -> B -> A'', w_line = None,
                 w_nodes = Some [''A'', ''B'', ''A'']\<rparr>]"
    by code_simp
  then show ?thesis
    using r by (intro exI [of _ m] exI [of _ doc']) simp
qed

subsection \<open>The cycle of three nodes\<close>

text \<open>
  C4. The document parsed from the four lines \<open>flowchart TB\<close>, \<open>A-->B\<close>, \<open>B-->C\<close>,
  \<open>C-->A\<close> has no warning; the graph model constructed from it finds exactly one cycle,
  \<open>[A, B, C, A]\<close>, and leaves exactly one warning in the document,
  "Cycle detected: A -> B -> C -> A". \<open>parse\<close> and the constructor are functions of
  their arguments alone, so parsing the text again and constructing a model from the
  fresh document is this same computation and gives this same single warning.
\<close>

theorem three_cycle_detected_once:
  "(case parse default_parser (JString ''flowchart TB\<newline>A-->B\<newline>B-->C\<newline>C-->A'') of
      Inl e \<Rightarrow> False
    | Inr doc \<Rightarrow>
        m_warnings (d_meta doc) = [] \<and>
        (case new_GraphModel doc of
           None \<Rightarrow> False
         | Some (m, doc') \<Rightarrow>
             g_cycles m = [[''A'', ''B'', ''C'', ''A'']] \<and>
             m_warnings (d_meta doc') =
               [\<lparr>w_message = ''Cycle detected: A -> B -> C -> A'', w_line = None,
                 w_nodes = Some [''A'', ''B'', ''C'', ''A'']\<rparr>] \<and>
             m_warnings (g_meta m) = m_warnings (d_meta doc')))"
  by code_simp

section \<open>Properties of the highlight engine\<close>

lemma reachable_start: "start \<in> reachable this start"
  by (simp add: reachable_def)

lemma reachable_step:
  "a \<in> reachable this start \<Longrightarrow> b \<in> set (successors this a) \<Longrightarrow> b \<in> reachable this start"
  unfolding reachable_def edge_rel_def
  by (auto intro: rtrancl_into_rtrancl)

lemma reachable_closed:
  assumes "start \<in> V" and "\<And>v. v \<in> V \<Longrightarrow> set (successors this v) \<subseteq> V"
  shows "reachable this start \<subseteq> V"
proof
  fix n
  assume "n \<in> reachable this start"
  then have "(start, n) \<in> (edge_rel this)\<^sup>*"
    by (simp add: reachable_def)
  then show "n \<in> V"
  proof (induction rule: rtrancl_induct)
    case base
    then show ?case by (rule assms(1))
  next
    case (step y z)
    then show ?case
      using assms(2) [of y] by (auto simp: edge_rel_def)
  qed
qed

lemma visit_successors_distinct:
  "distinct edgeIds \<Longrightarrow> distinct (fst (visit_successors nodeId vis succs (edgeIds, queue)))"
  by (induction succs arbitrary: edgeIds queue) (auto simp: distinct_set_add)

lemma bfs_inv_skip:
  assumes "bfs_inv this start (nodeId # queue) vis edgeIds" and "nodeId \<in> set vis"
  shows "bfs_inv this start queue vis edgeIds"
  using assms unfolding bfs_inv_def by auto

lemma bfs_inv_visit:
  assumes inv: "bfs_inv this start (nodeId # queue) vis edgeIds"
    and new: "nodeId \<notin> set vis"
    and run: "visit_successors nodeId (set_add nodeId vis) (successors this nodeId)
                (edgeIds, queue) = (edgeIds1, queue1)"
  shows "bfs_inv this start queue1 (set_add nodeId vis) edgeIds1"
proof -
  have q1: "queue1 = queue @ filter (\<lambda>s. s \<notin> set (set_add nodeId vis)) (successors this nodeId)"
    using visit_successors_queue
            [of nodeId "set_add nodeId vis" "successors this nodeId" edgeIds queue] run
    by simp
  have e1: "set edgeIds1 = set edgeIds \<union> (\<lambda>s. nodeId @ ''->'' @ s) ` set (successors this nodeId)"
    using visit_successors_edges
            [of nodeId "set_add nodeId vis" "successors this nodeId" edgeIds queue] run
    by simp
  have d1: "distinct edgeIds1"
    using visit_successors_distinct
            [of edgeIds nodeId "set_add nodeId vis" "successors this nodeId" queue] run inv
    by (simp add: bfs_inv_def)
  have v1: "set (set_add nodeId vis) = insert nodeId (set vis)"
    by (rule set_set_add)
  have r: "nodeId \<in> reachable this start"
    using inv by (simp add: bfs_inv_def)
  have "set (set_add nodeId vis) \<subseteq> reachable this start"
    using inv r by (simp add: bfs_inv_def v1)
  moreover have "set queue1 \<subseteq> reachable this start"
    using inv r reachable_step [of nodeId this start] by (auto simp: bfs_inv_def q1)
  moreover have "\<forall>v \<in> set (set_add nodeId vis).
                   set (successors this v) \<subseteq> set (set_add nodeId vis) \<union> set queue1"
    using inv unfolding bfs_inv_def q1 v1 by auto
  moreover have "start \<in> set (set_add nodeId vis) \<union> set queue1"
    using inv unfolding bfs_inv_def q1 v1 by auto
  moreover have "set edgeIds1 = edge_keys this (set (set_add nodeId vis))"
    using inv unfolding bfs_inv_def e1 v1 by (auto simp: edge_keys_def)
  moreover have "distinct (set_add nodeId vis)"
    using inv by (simp add: bfs_inv_def distinct_set_add)
  ultimately show ?thesis
    using d1 unfolding bfs_inv_def by blast
qed

lemma downstream_loop_correct:
  "bfs_inv this start queue vis edgeIds \<Longrightarrow>
   set (h_nodes (downstream_loop this queue vis edgeIds)) = reachable this start \<and>
   set (h_edges (downstream_loop this queue vis edgeIds)) =
     edge_keys this (reachable this start) \<and>
   distinct (h_nodes (downstream_loop this queue vis edgeIds)) \<and>
   distinct (h_edges (downstream_loop this queue vis edgeIds))"
proof (induction this queue vis edgeIds rule: downstream_loop.induct)
  case (1 this vis edgeIds)
  then have "reachable this start \<subseteq> set vis"
    by (intro reachable_closed) (auto simp: bfs_inv_def)
  then have "set vis = reachable this start"
    using 1 by (auto simp: bfs_inv_def)
  then show ?case
    using 1 by (simp add: bfs_inv_def)
next
  case (2 this nodeId queue vis edgeIds)
  show ?case
  proof (cases "nodeId \<in> set vis")
    case True
    then show ?thesis
      using 2 by (simp add: bfs_inv_skip)
  next
    case False
    obtain edgeIds1 queue1 where
      run: "visit_successors nodeId (set_add nodeId vis) (successors this nodeId)
              (edgeIds, queue) = (edgeIds1, queue1)"
      by (cases "visit_successors nodeId (set_add nodeId vis) (successors this nodeId)
                   (edgeIds, queue)")
    have "bfs_inv this start queue1 (set_add nodeId vis) edgeIds1"
      using "2.prems" False run by (rule bfs_inv_visit)
    then show ?thesis
      using "2.IH"(2) [OF False refl refl run [symmetric]] False run by simp
  qed
qed

lemma downstream_correct:
  assumes "start \<noteq> []"
  shows "set (h_nodes (downstream \<lparr>model = m\<rparr> (Some start))) = reachable m start \<and>
         set (h_edges (downstream \<lparr>model = m\<rparr> (Some start))) = edge_keys m (reachable m start) \<and>
         distinct (h_nodes (downstream \<lparr>model = m\<rparr> (Some start))) \<and>
         distinct (h_edges (downstream \<lparr>model = m\<rparr> (Some start)))"
proof -
  have "bfs_inv m start [start] [] []"
    by (simp add: bfs_inv_def reachable_start edge_keys_def)
  then show ?thesis
    using assms downstream_loop_correct [of m start "[start]" "[]" "[]"]
    by (simp add: downstream_def)
qed

text \<open>
  C3. On the model built from the four lines \<open>flowchart TB\<close>, \<open>A-->B\<close>, \<open>A-->C\<close>,
  \<open>B-->D\<close>, \<open>downstream("A")\<close> returns the nodes A, B, C, D and the edge keys
  \<open>A->B\<close>, \<open>A->C\<close>, \<open>B->D\<close> (the two sets, in insertion order). A node that is dequeued
  when it is already visited is skipped with no effect. On every model, cyclic or not,
  and every start id that is not empty, the traversal returns (\<open>downstream\<close> is a total
  function: its loop has a termination proof), its nodes are exactly the nodes reachable
  from the start, its edge keys are exactly the keys of the edges that leave a reachable
  node, and no node or edge key is recorded twice.
\<close>

theorem downstream_breadth_first:
  "(case parse default_parser (JString ''flowchart TB\<newline>A-->B\<newline>A-->C\<newline>B-->D'') of
      Inl e \<Rightarrow> False
    | Inr doc \<Rightarrow>
        (case new_GraphModel doc of
           None \<Rightarrow> False
         | Some (m, doc') \<Rightarrow>
             downstream \<lparr>model = m\<rparr> (Some ''A'') =
               \<lparr>h_nodes = [''A'', ''B'', ''C'', ''D''],
                h_edges = [''A->B'', ''A->C'', ''B->D'']\<rparr>)) \<and>
   (\<forall>this nodeId queue vis edgeIds.
      nodeId \<in> set vis \<longrightarrow>
      downstream_loop this (nodeId # queue) vis edgeIds = downstream_loop this queue vis edgeIds) \<and>
   (\<forall>m start.
      start \<noteq> [] \<longrightarrow>
      set (h_nodes (downstream \<lparr>model = m\<rparr> (Some start))) = reachable m start \<and>
      set (h_edges (downstream \<lparr>model = m\<rparr> (Some start))) = edge_keys m (reachable m start) \<and>
      distinct (h_nodes (downstream \<lparr>model = m\<rparr> (Some start))) \<and>
      distinct (h_edges (downstream \<lparr>model = m\<rparr> (Some start))))"
proof -
  have example:
    "case parse default_parser (JString ''flowchart TB\<newline>A-->B\<newline>A-->C\<newline>B-->D'') of
       Inl e \<Rightarrow> False
     | Inr doc \<Rightarrow>
         (case new_GraphModel doc of
            None \<Rightarrow> False
          | Some (m, doc') \<Rightarrow>
              downstream \<lparr>model = m\<rparr> (Some ''A'') =
                \<lparr>h_nodes = [''A'', ''B'', ''C'', ''D''],
                 h_edges = [''A->B'', ''A->C'', ''B->D'']\<rparr>)"
    by code_simp
  have skip: "downstream_loop this (nodeId # queue) vis edgeIds =
                downstream_loop this queue vis edgeIds"
    if "nodeId \<in> set vis" for this nodeId queue vis edgeIds
    using that by simp
  show ?thesis
    using example skip downstream_correct by (intro conjI allI impI) simp_all
qed

theorem downstream_breadth_first_witness:
  "\<exists>doc m doc'.
     parse default_parser (JString ''flowchart TB\<newline>A-->B\<newline>B-->C\<newline>C-->A'') = Inr doc \<and>
     new_GraphModel doc = Some (m, doc') \<and>
     h_nodes (downstream \<lparr>model = m\<rparr> (Some ''A'')) = [''A'', ''B'', ''C''] \<and>
     h_edges (downstream \<lparr>model = m\<rparr> (Some ''A'')) = [''A->B'', ''B->C'', ''C->A''] \<and>
     reachable m ''A'' = {''A'', ''B'', ''C''} \<and>
     edge_keys m (reachable m ''A'') = {''A->B'', ''B->C'', ''C->A''}"
proof -
  have "case parse default_parser (JString ''flowchart TB\<newline>A-->B\<newline>B-->C\<newline>C-->A'') of
          Inl e \<Rightarrow> False
        | Inr doc \<Rightarrow>
            (case new_GraphModel doc of
               None \<Rightarrow> False
             | Some (m, doc') \<Rightarrow>
                 downstream \<lparr>model = m\<rparr> (Some ''A'') =
                   \<lparr>h_nodes = [''A'', ''B'', ''C''],
                    h_edges = [''A->B'', ''B->C'', ''C->A'']\<rparr>)"
    by code_simp
  then obtain doc m doc' where r:
    "parse default_parser (JString ''flowchart TB\<newline>A-->B\<newline>B-->C\<newline>C-->A'') = Inr doc"
    "new_GraphModel doc = Some (m, doc')"
    "downstream \<lparr>model = m\<rparr> (Some ''A'') =
       \<lparr>h_nodes = [''A'', ''B'', ''C''], h_edges = [''A->B'', ''B->C'', ''C->A'']\<rparr>"
    by (auto split: sum.splits option.splits)
  have "set (h_nodes (downstream \<lparr>model = m\<rparr> (Some ''A''))) = reachable m ''A'' \<and>
        set (h_edges (downstream \<lparr>model = m\<rparr> (Some ''A''))) = edge_keys m (reachable m ''A'')"
    using downstream_breadth_first by simp
  then have s: "reachable m ''A'' = {''A'', ''B'', ''C''}"
      "edge_keys m (reachable m ''A'') = {''A->B'', ''B->C'', ''C->A''}"
    unfolding r(3) by auto
  have l: "h_nodes (downstream \<lparr>model = m\<rparr> (Some ''A'')) = [''A'', ''B'', ''C'']"
      "h_edges (downstream \<lparr>model = m\<rparr> (Some ''A'')) = [''A->B'', ''B->C'', ''C->A'']"
    using r(3) by simp_all
  show ?thesis
    using r(1,2) l s
    by - (rule exI [of _ doc], rule exI [of _ m], rule exI [of _ doc'], intro conjI,
          assumption+)
qed

end
